theory Spec2Isabelle
  imports Main "HOL-Library.Multiset"
begin

section \<open>Errors\<close>

text \<open>
  The exceptions of the JavaScript source, as values.
  \<^item> \<open>TypeError\<close>: a property is read from \<open>undefined\<close> or \<open>null\<close>
    (\<open>this.heap[i].postCount\<close> with \<open>i\<close> outside the array,
    \<open>Object.entries(undefined)\<close>, \<open>peek().commentCount\<close> on an empty heap).
  \<^item> \<open>RequestFailed\<close>: an upstream request (or the token exchange before it) is rejected.
  \<^item> \<open>NullElement\<close>: the \<open>null\<close> that \<open>extractMin\<close>/\<open>extractMax\<close> return on an
    empty heap would be stored in a result list. Every caller extracts under a size
    guard; the model stops with this value instead of carrying nullable list elements.
\<close>

datatype error =
    TypeError
  | RequestFailed
  | NullElement

section \<open>The array heaps of apiManager.js\<close>

text \<open>
  Both heap classes keep their elements in a JavaScript array \<open>this.heap\<close>, here a
  list. Indices are JavaScript numbers holding integers, here \<open>int\<close>:
  \<open>getParentIndex(0)\<close> is \<open>Math.floor(-1 / 2) = -1\<close>.
  \<open>heap_at\<close> is the array read \<open>this.heap[i]\<close>: \<open>undefined\<close> (\<open>None\<close>) outside
  the array.
\<close>

definition heap_at :: "'a list \<Rightarrow> int \<Rightarrow> 'a option" where
  "heap_at heap i = (if 0 \<le> i \<and> i < int (length heap) then Some (heap ! nat i) else None)"

text \<open>The index arithmetic is the same in \<open>MinHeap\<close> and \<open>MaxHeap\<close>.\<close>

definition getParentIndex :: "int \<Rightarrow> int" where
  "getParentIndex index = (index - 1) div 2"

definition getLeftChildIndex :: "int \<Rightarrow> int" where
  "getLeftChildIndex index = 2 * index + 1"

definition getRightChildIndex :: "int \<Rightarrow> int" where
  "getRightChildIndex index = 2 * index + 2"

text \<open>
  \<open>swap(index1, index2)\<close>. Both heaps call it only after the elements at both indices
  have been read and a property of each has been taken, which throws outside the array:
  the indices are inside the array whenever \<open>swap\<close> is reached.
\<close>

definition swap :: "'a list \<Rightarrow> int \<Rightarrow> int \<Rightarrow> 'a list" where
  "swap heap index1 index2 =
     heap[nat index1 := heap ! nat index2, nat index2 := heap ! nat index1]"

text \<open>
  The comparisons \<open>f(this.heap[i]) < f(this.heap[j])\<close> and
  \<open>f(this.heap[i]) > f(this.heap[j])\<close>, where \<open>f\<close> reads a property of the element
  (\<open>.postCount\<close>, \<open>post.id\<close>, \<open>post.commentCount\<close>): a \<open>TypeError\<close> when either
  element is \<open>undefined\<close>.
\<close>

definition read_lt :: "('a \<Rightarrow> 'k::linorder) \<Rightarrow> 'a list \<Rightarrow> int \<Rightarrow> int \<Rightarrow> error + bool" where
  "read_lt f heap i j =
     (case heap_at heap i of
        None \<Rightarrow> Inl TypeError
      | Some a \<Rightarrow> (case heap_at heap j of
                    None \<Rightarrow> Inl TypeError
                  | Some b \<Rightarrow> Inr (f a < f b)))"

definition read_gt :: "('a \<Rightarrow> 'k::linorder) \<Rightarrow> 'a list \<Rightarrow> int \<Rightarrow> int \<Rightarrow> error + bool" where
  "read_gt f heap i j =
     (case heap_at heap i of
        None \<Rightarrow> Inl TypeError
      | Some a \<Rightarrow> (case heap_at heap j of
                    None \<Rightarrow> Inl TypeError
                  | Some b \<Rightarrow> Inr (f a > f b)))"

subsection \<open>Users and the MinHeap\<close>

text \<open>The entries \<open>{id, name, postCount}\<close> built by \<open>getTopUsers\<close>.\<close>

record user =
  user_id :: string
  user_name :: string
  postCount :: nat

function MinHeap_heapifyUp :: "user list \<Rightarrow> int \<Rightarrow> error + user list" where
  "MinHeap_heapifyUp heap currentIndex =
     (if currentIndex > 0 then
        (case read_gt postCount heap (getParentIndex currentIndex) currentIndex of
           Inl e \<Rightarrow> Inl e
         | Inr True \<Rightarrow>
             MinHeap_heapifyUp (swap heap currentIndex (getParentIndex currentIndex))
               (getParentIndex currentIndex)
         | Inr False \<Rightarrow> Inr heap)
      else Inr heap)"
  by pat_completeness auto
termination
  by (relation "measure (\<lambda>(h, i). nat i)") (auto simp: getParentIndex_def)

declare MinHeap_heapifyUp.simps [simp del]

definition MinHeap_insert :: "user list \<Rightarrow> user \<Rightarrow> error + user list" where
  "MinHeap_insert heap u = MinHeap_heapifyUp (heap @ [u]) (int (length (heap @ [u])) - 1)"

function MinHeap_heapifyDown :: "user list \<Rightarrow> int \<Rightarrow> error + user list" where
  "MinHeap_heapifyDown heap index =
     (let leftChildIndex = getLeftChildIndex index;
          rightChildIndex = getRightChildIndex index;
          size = int (length heap)
      in (case (if leftChildIndex < size
                then read_lt postCount heap leftChildIndex index
                else Inr False) of
            Inl e \<Rightarrow> Inl e
          | Inr b1 \<Rightarrow>
              (let smallest = (if b1 then leftChildIndex else index)
               in (case (if rightChildIndex < size
                         then read_lt postCount heap rightChildIndex smallest
                         else Inr False) of
                     Inl e \<Rightarrow> Inl e
                   | Inr b2 \<Rightarrow>
                       (let smallest = (if b2 then rightChildIndex else smallest)
                        in if smallest \<noteq> index
                           then MinHeap_heapifyDown (swap heap index smallest) smallest
                           else Inr heap)))))"
  by pat_completeness auto
termination
  apply (relation "measure (\<lambda>(h, i). nat (int (length h) - i))")
   apply simp
  apply (auto simp: swap_def read_lt_def heap_at_def getLeftChildIndex_def
      getRightChildIndex_def split: if_splits option.splits)
  done

declare MinHeap_heapifyDown.simps [simp del]

text \<open>
  \<open>extractMin()\<close> returns the removed element, \<open>null\<close> (\<open>None\<close>) on an empty heap, and
  leaves the heap changed; the model returns both.
\<close>

definition MinHeap_extractMin :: "user list \<Rightarrow> error + (user option \<times> user list)" where
  "MinHeap_extractMin heap =
     (if length heap = 0 then Inr (None, heap)
      else
        (let min = heap ! 0;
             last = last heap;
             heap' = butlast heap
         in if length heap' > 0
            then (case MinHeap_heapifyDown (heap'[0 := last]) 0 of
                    Inl e \<Rightarrow> Inl e
                  | Inr heap'' \<Rightarrow> Inr (Some min, heap''))
            else Inr (Some min, heap')))"

subsection \<open>MaxHeap\<close>

text \<open>
  \<open>MaxHeap\<close> is built with a key function; the three heaps of the source take
  \<open>post.id\<close> or \<open>post.commentCount\<close>. The key function is the first argument of every
  operation.
\<close>

definition MaxHeap_peek :: "'a list \<Rightarrow> 'a option" where
  "MaxHeap_peek heap = (if length heap > 0 then Some (heap ! 0) else None)"

function MaxHeap_heapifyUp :: "('a \<Rightarrow> int) \<Rightarrow> 'a list \<Rightarrow> int \<Rightarrow> error + 'a list" where
  "MaxHeap_heapifyUp keyFunction heap currentIndex =
     (if currentIndex > 0 then
        (case read_lt keyFunction heap (getParentIndex currentIndex) currentIndex of
           Inl e \<Rightarrow> Inl e
         | Inr True \<Rightarrow>
             MaxHeap_heapifyUp keyFunction
               (swap heap currentIndex (getParentIndex currentIndex))
               (getParentIndex currentIndex)
         | Inr False \<Rightarrow> Inr heap)
      else Inr heap)"
  by pat_completeness auto
termination
  by (relation "measure (\<lambda>(k, h, i). nat i)") (auto simp: getParentIndex_def)

declare MaxHeap_heapifyUp.simps [simp del]

definition MaxHeap_insert :: "('a \<Rightarrow> int) \<Rightarrow> 'a list \<Rightarrow> 'a \<Rightarrow> error + 'a list" where
  "MaxHeap_insert keyFunction heap item =
     MaxHeap_heapifyUp keyFunction (heap @ [item]) (int (length (heap @ [item])) - 1)"

function MaxHeap_heapifyDown :: "('a \<Rightarrow> int) \<Rightarrow> 'a list \<Rightarrow> int \<Rightarrow> error + 'a list" where
  "MaxHeap_heapifyDown keyFunction heap index =
     (let leftChildIndex = getLeftChildIndex index;
          rightChildIndex = getRightChildIndex index;
          size = int (length heap)
      in (case (if leftChildIndex < size
                then read_gt keyFunction heap leftChildIndex index
                else Inr False) of
            Inl e \<Rightarrow> Inl e
          | Inr b1 \<Rightarrow>
              (let largest = (if b1 then leftChildIndex else index)
               in (case (if rightChildIndex < size
                         then read_gt keyFunction heap rightChildIndex largest
                         else Inr False) of
                     Inl e \<Rightarrow> Inl e
                   | Inr b2 \<Rightarrow>
                       (let largest = (if b2 then rightChildIndex else largest)
                        in if largest \<noteq> index
                           then MaxHeap_heapifyDown keyFunction (swap heap index largest) largest
                           else Inr heap)))))"
  by pat_completeness auto
termination
  apply (relation "measure (\<lambda>(k, h, i). nat (int (length h) - i))")
   apply simp
  apply (auto simp: swap_def read_gt_def heap_at_def getLeftChildIndex_def
      getRightChildIndex_def split: if_splits option.splits)
  done

declare MaxHeap_heapifyDown.simps [simp del]

definition MaxHeap_extractMax :: "('a \<Rightarrow> int) \<Rightarrow> 'a list \<Rightarrow> error + ('a option \<times> 'a list)" where
  "MaxHeap_extractMax keyFunction heap =
     (if length heap = 0 then Inr (None, heap)
      else
        (let max = heap ! 0;
             last = last heap;
             heap' = butlast heap
         in if length heap' > 0
            then (case MaxHeap_heapifyDown keyFunction (heap'[0 := last]) 0 of
                    Inl e \<Rightarrow> Inl e
                  | Inr heap'' \<Rightarrow> Inr (Some max, heap''))
            else Inr (Some max, heap')))"

section \<open>Heap order\<close>

text \<open>
  The facts about the heaps are proved once, for \<open>MaxHeap\<close> with any key function;
  \<open>MinHeap\<close> is \<open>MaxHeap\<close> on the negated \<open>postCount\<close>
  (\<open>MinHeap_heapifyUp_eq\<close>, \<open>MinHeap_heapifyDown_eq\<close>).
  \<open>max_heap\<close> is the heap order of the array: no element above its parent.
  \<open>max_heap_but_up\<close> and \<open>max_heap_but_down\<close> are the order while \<open>heapifyUp\<close>
  and \<open>heapifyDown\<close> run: it may fail between the index \<open>c\<close> and its parent, or
  between \<open>c\<close> and its children, and holds between the neighbours of \<open>c\<close>.
\<close>

lemma heap_at_in: "0 \<le> i \<Longrightarrow> i < int (length h) \<Longrightarrow> heap_at h i = Some (h ! nat i)"
  by (simp add: heap_at_def)

lemma read_gt_in:
  "0 \<le> i \<Longrightarrow> i < int (length h) \<Longrightarrow> 0 \<le> j \<Longrightarrow> j < int (length h) \<Longrightarrow>
   read_gt f h i j = Inr (f (h ! nat i) > f (h ! nat j))"
  by (simp add: read_gt_def heap_at_in)

lemma read_lt_in:
  "0 \<le> i \<Longrightarrow> i < int (length h) \<Longrightarrow> 0 \<le> j \<Longrightarrow> j < int (length h) \<Longrightarrow>
   read_lt f h i j = Inr (f (h ! nat i) < f (h ! nat j))"
  by (simp add: read_lt_def heap_at_in)

lemma length_swap [simp]: "length (swap h a b) = length h"
  by (simp add: swap_def)

lemma mset_swap_heap:
  "0 \<le> a \<Longrightarrow> a < int (length h) \<Longrightarrow> 0 \<le> b \<Longrightarrow> b < int (length h) \<Longrightarrow>
   mset (swap h a b) = mset h"
  by (simp add: swap_def mset_swap)

lemma nth_swap:
  "0 \<le> a \<Longrightarrow> a < int (length h) \<Longrightarrow> 0 \<le> b \<Longrightarrow> b < int (length h) \<Longrightarrow>
   0 \<le> i \<Longrightarrow> i < int (length h) \<Longrightarrow>
   swap h a b ! nat i = (if i = b then h ! nat a else if i = a then h ! nat b else h ! nat i)"
  by (auto simp: swap_def nth_list_update)

definition max_heap :: "('a \<Rightarrow> int) \<Rightarrow> 'a list \<Rightarrow> bool" where
  "max_heap kf h =
     (\<forall>i. 0 < i \<and> i < int (length h) \<longrightarrow> kf (h ! nat i) \<le> kf (h ! nat (getParentIndex i)))"

definition max_heap_but_up :: "('a \<Rightarrow> int) \<Rightarrow> 'a list \<Rightarrow> int \<Rightarrow> bool" where
  "max_heap_but_up kf h c =
     (\<forall>i. 0 < i \<and> i < int (length h) \<longrightarrow>
        (i \<noteq> c \<longrightarrow> kf (h ! nat i) \<le> kf (h ! nat (getParentIndex i))) \<and>
        (getParentIndex i = c \<and> 0 < c \<longrightarrow> kf (h ! nat i) \<le> kf (h ! nat (getParentIndex c))))"

definition max_heap_but_down :: "('a \<Rightarrow> int) \<Rightarrow> 'a list \<Rightarrow> int \<Rightarrow> bool" where
  "max_heap_but_down kf h c =
     (\<forall>i. 0 < i \<and> i < int (length h) \<longrightarrow>
        (getParentIndex i \<noteq> c \<longrightarrow> kf (h ! nat i) \<le> kf (h ! nat (getParentIndex i))) \<and>
        (getParentIndex i = c \<and> 0 < c \<longrightarrow> kf (h ! nat i) \<le> kf (h ! nat (getParentIndex c))))"

lemma parent_bounds: "0 < i \<Longrightarrow> 0 \<le> getParentIndex i \<and> getParentIndex i < i"
  by (simp add: getParentIndex_def)

lemma parent_child: "getParentIndex i = c \<longleftrightarrow> i = getLeftChildIndex c \<or> i = getRightChildIndex c"
  unfolding getParentIndex_def getLeftChildIndex_def getRightChildIndex_def by linarith

definition largest_child :: "('a \<Rightarrow> int) \<Rightarrow> 'a list \<Rightarrow> int \<Rightarrow> int" where
  "largest_child kf h i =
     (let l = getLeftChildIndex i; r = getRightChildIndex i;
          m = (if l < int (length h) \<and> kf (h ! nat l) > kf (h ! nat i) then l else i)
      in if r < int (length h) \<and> kf (h ! nat r) > kf (h ! nat m) then r else m)"

lemma MaxHeap_heapifyDown_step:
  assumes "0 \<le> i" "i < int (length h)"
  shows "MaxHeap_heapifyDown kf h i =
           (if largest_child kf h i \<noteq> i
            then MaxHeap_heapifyDown kf (swap h i (largest_child kf h i)) (largest_child kf h i)
            else Inr h)"
proof -
  have lr: "0 \<le> getLeftChildIndex i" "0 \<le> getRightChildIndex i"
    "getLeftChildIndex i \<noteq> i" "getRightChildIndex i \<noteq> i"
    using assms(1) by (simp_all add: getLeftChildIndex_def getRightChildIndex_def)
  show ?thesis
    apply (subst MaxHeap_heapifyDown.simps)
    using assms lr
    apply (simp add: Let_def read_gt_in largest_child_def)
    done
qed

lemma largest_child_cases:
  assumes "0 \<le> i" "i < int (length h)"
  shows "largest_child kf h i = i \<or>
         (largest_child kf h i = getLeftChildIndex i \<or> largest_child kf h i = getRightChildIndex i) \<and>
         largest_child kf h i < int (length h) \<and> i < largest_child kf h i"
  using assms
  by (auto simp: largest_child_def Let_def getLeftChildIndex_def getRightChildIndex_def)

lemma heapifyDown_total:
  "0 \<le> i \<Longrightarrow> i < int (length h) \<Longrightarrow>
   \<exists>h'. MaxHeap_heapifyDown kf h i = Inr h' \<and> length h' = length h \<and> mset h' = mset h"
proof (induction "nat (int (length h) - i)" arbitrary: h i rule: less_induct)
  case less
  let ?m = "largest_child kf h i"
  show ?case
  proof (cases "?m = i")
    case True
    then show ?thesis using less.prems by (simp add: MaxHeap_heapifyDown_step)
  next
    case False
    with largest_child_cases[OF less.prems, of kf]
    have m: "?m < int (length h)" "i < ?m" by auto
    have "\<exists>h'. MaxHeap_heapifyDown kf (swap h i ?m) ?m = Inr h' \<and>
            length h' = length (swap h i ?m) \<and> mset h' = mset (swap h i ?m)"
      by (rule less.hyps) (use m less.prems in auto)
    then show ?thesis
      using False less.prems m by (simp add: MaxHeap_heapifyDown_step mset_swap_heap)
  qed
qed

lemma largest_child_ge:
  assumes "0 \<le> i" "i < int (length h)" "getParentIndex j = i" "0 \<le> j" "j < int (length h)"
  shows "kf (h ! nat j) \<le> kf (h ! nat (largest_child kf h i))"
    and "kf (h ! nat i) \<le> kf (h ! nat (largest_child kf h i))"
  using assms unfolding parent_child
  by (auto simp: largest_child_def Let_def getLeftChildIndex_def getRightChildIndex_def)

lemma heapifyDown_heap:
  "0 \<le> i \<Longrightarrow> i < int (length h) \<Longrightarrow> max_heap_but_down kf h i \<Longrightarrow>
   \<exists>h'. MaxHeap_heapifyDown kf h i = Inr h' \<and> mset h' = mset h \<and> max_heap kf h'"
proof (induction "nat (int (length h) - i)" arbitrary: h i rule: less_induct)
  case less
  let ?m = "largest_child kf h i"
  show ?case
  proof (cases "?m = i")
    case True
    have "max_heap kf h"
      unfolding max_heap_def
    proof (intro allI impI)
      fix j assume j: "0 < j \<and> j < int (length h)"
      show "kf (h ! nat j) \<le> kf (h ! nat (getParentIndex j))"
      proof (cases "getParentIndex j = i")
        case P: True
        from largest_child_ge(1)[OF less.prems(1,2) P, of kf] j True show ?thesis
          using P by simp
      next
        case False
        then show ?thesis using less.prems(3) j by (simp add: max_heap_but_down_def)
      qed
    qed
    then show ?thesis using True less.prems by (simp add: MaxHeap_heapifyDown_step)
  next
    case False
    with largest_child_cases[OF less.prems(1,2), of kf]
    have m: "?m < int (length h)" "i < ?m" "getParentIndex ?m = i"
      by (auto simp: parent_child)
    have inv: "max_heap_but_down kf (swap h i ?m) ?m"
      unfolding max_heap_but_down_def
    proof (intro allI impI)
      fix j assume j0: "0 < j \<and> j < int (length (swap h i ?m))"
      then have j: "0 < j" "j < int (length h)" by simp_all
      have pj: "0 \<le> getParentIndex j" "getParentIndex j < j"
        using parent_bounds[OF j(1)] by simp_all
      have sj: "swap h i ?m ! nat j =
                  (if j = ?m then h ! nat i else if j = i then h ! nat ?m else h ! nat j)"
        using nth_swap[of i h ?m j] less.prems m j by simp
      have sp: "swap h i ?m ! nat (getParentIndex j) =
                  (if getParentIndex j = ?m then h ! nat i
                   else if getParentIndex j = i then h ! nat ?m
                   else h ! nat (getParentIndex j))"
        using nth_swap[of i h ?m "getParentIndex j"] less.prems m j pj by simp
      have a: "getParentIndex j \<noteq> ?m \<longrightarrow>
               kf (swap h i ?m ! nat j) \<le> kf (swap h i ?m ! nat (getParentIndex j))"
      proof
        assume np: "getParentIndex j \<noteq> ?m"
        consider "j = ?m" | "j = i" | "j \<noteq> ?m" "j \<noteq> i" "getParentIndex j = i"
          | "j \<noteq> ?m" "j \<noteq> i" "getParentIndex j \<noteq> i"
          by blast
        then show "kf (swap h i ?m ! nat j) \<le> kf (swap h i ?m ! nat (getParentIndex j))"
        proof cases
          case 1
          then show ?thesis
            using sj sp m largest_child_ge(2)[OF less.prems(1,2) m(3), of kf] less.prems by simp
        next
          case 2
          have "kf (h ! nat ?m) \<le> kf (h ! nat (getParentIndex i))"
            using less.prems(3) m 2 j less.prems(1)
            unfolding max_heap_but_down_def by (metis less_le_trans not_le order.strict_trans2)
          then show ?thesis using sj sp 2 m np pj by simp
        next
          case 3
          then show ?thesis
            using sj sp largest_child_ge(1)[OF less.prems(1,2) 3(3), of kf] j False by simp
        next
          case 4
          then show ?thesis
            using sj sp np less.prems(3) j unfolding max_heap_but_down_def by simp
        qed
      qed
      have b: "getParentIndex j = ?m \<and> 0 < ?m \<longrightarrow>
               kf (swap h i ?m ! nat j) \<le> kf (swap h i ?m ! nat (getParentIndex ?m))"
      proof
        assume pm: "getParentIndex j = ?m \<and> 0 < ?m"
        then have "j \<noteq> ?m" "j \<noteq> i" using pj m by auto
        moreover have "swap h i ?m ! nat (getParentIndex ?m) = h ! nat ?m"
          using nth_swap[of i h ?m i] less.prems m by simp
        moreover have "kf (h ! nat j) \<le> kf (h ! nat ?m)"
          using less.prems(3) j pm m unfolding max_heap_but_down_def by (metis less_irrefl)
        ultimately show "kf (swap h i ?m ! nat j) \<le> kf (swap h i ?m ! nat (getParentIndex ?m))"
          using sj by simp
      qed
      show "(getParentIndex j \<noteq> ?m \<longrightarrow>
               kf (swap h i ?m ! nat j) \<le> kf (swap h i ?m ! nat (getParentIndex j))) \<and>
            (getParentIndex j = ?m \<and> 0 < ?m \<longrightarrow>
               kf (swap h i ?m ! nat j) \<le> kf (swap h i ?m ! nat (getParentIndex ?m)))"
        using a b by blast
    qed
    have "\<exists>h'. MaxHeap_heapifyDown kf (swap h i ?m) ?m = Inr h' \<and>
            mset h' = mset (swap h i ?m) \<and> max_heap kf h'"
      by (rule less.hyps) (use m less.prems inv in auto)
    then show ?thesis
      using False less.prems m by (simp add: MaxHeap_heapifyDown_step mset_swap_heap)
  qed
qed


lemma MaxHeap_heapifyUp_0: "c \<le> 0 \<Longrightarrow> MaxHeap_heapifyUp kf h c = Inr h"
  by (subst MaxHeap_heapifyUp.simps) simp

lemma MaxHeap_heapifyUp_step:
  assumes "0 < c" "c < int (length h)"
  shows "MaxHeap_heapifyUp kf h c =
           (if kf (h ! nat (getParentIndex c)) < kf (h ! nat c)
            then MaxHeap_heapifyUp kf (swap h c (getParentIndex c)) (getParentIndex c)
            else Inr h)"
  using assms parent_bounds[OF assms(1)]
  by (subst MaxHeap_heapifyUp.simps) (simp add: read_lt_in)

lemma heapifyUp_heap:
  "0 \<le> c \<Longrightarrow> c < int (length h) \<Longrightarrow> max_heap_but_up kf h c \<Longrightarrow>
   \<exists>h'. MaxHeap_heapifyUp kf h c = Inr h' \<and> mset h' = mset h \<and> max_heap kf h'"
proof (induction "nat c" arbitrary: h c rule: less_induct)
  case less
  show ?case
  proof (cases "0 < c \<and> kf (h ! nat (getParentIndex c)) < kf (h ! nat c)")
    case False
    have "max_heap kf h"
      unfolding max_heap_def
    proof (intro allI impI)
      fix j assume j: "0 < j \<and> j < int (length h)"
      show "kf (h ! nat j) \<le> kf (h ! nat (getParentIndex j))"
      proof (cases "j = c")
        case True
        then show ?thesis using False j by auto
      next
        case N: False
        then show ?thesis using less.prems(3) j by (simp add: max_heap_but_up_def)
      qed
    qed
    moreover have "MaxHeap_heapifyUp kf h c = Inr h"
      using False less.prems by (cases "0 < c") (simp_all add: MaxHeap_heapifyUp_step MaxHeap_heapifyUp_0)
    ultimately show ?thesis by simp
  next
    case True
    let ?p = "getParentIndex c"
    have c: "0 < c" and lt: "kf (h ! nat ?p) < kf (h ! nat c)" using True by simp_all
    have p: "0 \<le> ?p" "?p < c" using parent_bounds[OF c] by simp_all
    have inv: "max_heap_but_up kf (swap h c ?p) ?p"
      unfolding max_heap_but_up_def
    proof (intro allI impI)
      fix j assume j0: "0 < j \<and> j < int (length (swap h c ?p))"
      then have j: "0 < j" "j < int (length h)" by simp_all
      have pj: "0 \<le> getParentIndex j" "getParentIndex j < j"
        using parent_bounds[OF j(1)] by simp_all
      have sj: "swap h c ?p ! nat j =
                  (if j = ?p then h ! nat c else if j = c then h ! nat ?p else h ! nat j)"
        using nth_swap[of c h ?p j] less.prems p j by simp
      have sp: "swap h c ?p ! nat (getParentIndex j) =
                  (if getParentIndex j = ?p then h ! nat c
                   else if getParentIndex j = c then h ! nat ?p
                   else h ! nat (getParentIndex j))"
        using nth_swap[of c h ?p "getParentIndex j"] less.prems p j pj by simp
      have a: "j \<noteq> ?p \<longrightarrow> kf (swap h c ?p ! nat j) \<le> kf (swap h c ?p ! nat (getParentIndex j))"
      proof
        assume np: "j \<noteq> ?p"
        consider "j = c" | "j \<noteq> c" "getParentIndex j = c" | "j \<noteq> c" "getParentIndex j = ?p"
          | "j \<noteq> c" "getParentIndex j \<noteq> c" "getParentIndex j \<noteq> ?p"
          by blast
        then show "kf (swap h c ?p ! nat j) \<le> kf (swap h c ?p ! nat (getParentIndex j))"
        proof cases
          case 1
          then show ?thesis using sj sp lt p by simp
        next
          case 2
          have "kf (h ! nat j) \<le> kf (h ! nat ?p)"
            using less.prems(3) j 2 c unfolding max_heap_but_up_def by blast
          then show ?thesis using sj sp 2 np p by simp
        next
          case 3
          have "kf (h ! nat j) \<le> kf (h ! nat ?p)"
            using less.prems(3) j 3 unfolding max_heap_but_up_def by metis
          then show ?thesis using sj sp 3 np lt by simp
        next
          case 4
          then show ?thesis
            using sj sp np less.prems(3) j unfolding max_heap_but_up_def by simp
        qed
      qed
      have b: "getParentIndex j = ?p \<and> 0 < ?p \<longrightarrow>
               kf (swap h c ?p ! nat j) \<le> kf (swap h c ?p ! nat (getParentIndex ?p))"
      proof
        assume pm: "getParentIndex j = ?p \<and> 0 < ?p"
        have pp: "0 \<le> getParentIndex ?p" "getParentIndex ?p < ?p"
          using parent_bounds[of ?p] pm by simp_all
        have spp: "swap h c ?p ! nat (getParentIndex ?p) = h ! nat (getParentIndex ?p)"
          using nth_swap[of c h ?p "getParentIndex ?p"] less.prems p pp by simp
        have 1: "kf (h ! nat ?p) \<le> kf (h ! nat (getParentIndex ?p))"
          using less.prems(3) pm p less.prems(2) unfolding max_heap_but_up_def
          by (metis less_irrefl less_trans)
        have 2: "j \<noteq> c \<Longrightarrow> kf (h ! nat j) \<le> kf (h ! nat ?p)"
          using less.prems(3) pm j unfolding max_heap_but_up_def by metis
        have "j \<noteq> ?p" using pj pm by simp
        then show "kf (swap h c ?p ! nat j) \<le> kf (swap h c ?p ! nat (getParentIndex ?p))"
          using sj spp 1 2 by (cases "j = c") auto
      qed
      show "(j \<noteq> ?p \<longrightarrow> kf (swap h c ?p ! nat j) \<le> kf (swap h c ?p ! nat (getParentIndex j))) \<and>
            (getParentIndex j = ?p \<and> 0 < ?p \<longrightarrow>
               kf (swap h c ?p ! nat j) \<le> kf (swap h c ?p ! nat (getParentIndex ?p)))"
        using a b by blast
    qed
    have "\<exists>h'. MaxHeap_heapifyUp kf (swap h c ?p) ?p = Inr h' \<and>
            mset h' = mset (swap h c ?p) \<and> max_heap kf h'"
      by (rule less.hyps) (use p less.prems inv in auto)
    then show ?thesis
      using True less.prems p by (simp add: MaxHeap_heapifyUp_step mset_swap_heap)
  qed
qed

lemma max_heap_root:
  "max_heap kf h \<Longrightarrow> 0 \<le> i \<Longrightarrow> i < int (length h) \<Longrightarrow> kf (h ! nat i) \<le> kf (h ! 0)"
proof (induction "nat i" arbitrary: i rule: less_induct)
  case less
  show ?case
  proof (cases "i = 0")
    case True
    then show ?thesis by simp
  next
    case False
    then have i: "0 < i" using less.prems by simp
    have p: "0 \<le> getParentIndex i" "getParentIndex i < i" using parent_bounds[OF i] by simp_all
    have "kf (h ! nat i) \<le> kf (h ! nat (getParentIndex i))"
      using less.prems i unfolding max_heap_def by blast
    moreover have "kf (h ! nat (getParentIndex i)) \<le> kf (h ! 0)"
      by (rule less.hyps) (use p less.prems in auto)
    ultimately show ?thesis by simp
  qed
qed

lemma max_heap_root_set:
  assumes "max_heap kf h" "x \<in> set h"
  shows "kf x \<le> kf (h ! 0)"
proof -
  from assms(2) obtain n where n: "n < length h" "h ! n = x"
    by (auto simp: in_set_conv_nth)
  from max_heap_root[OF assms(1), of "int n"] n show ?thesis by simp
qed

lemma MaxHeap_insert_heap:
  assumes "max_heap kf h"
  shows "\<exists>h'. MaxHeap_insert kf h x = Inr h' \<and> mset h' = add_mset x (mset h) \<and> max_heap kf h'"
proof -
  have inv: "max_heap_but_up kf (h @ [x]) (int (length h))"
    unfolding max_heap_but_up_def
  proof (intro allI impI conjI)
    fix j assume j: "0 < j \<and> j < int (length (h @ [x]))" and "j \<noteq> int (length h)"
    then have jl: "j < int (length h)" by simp
    with j parent_bounds[of j] have "nat j < length h" "nat (getParentIndex j) < length h"
      by auto
    then show "kf ((h @ [x]) ! nat j) \<le> kf ((h @ [x]) ! nat (getParentIndex j))"
      using assms j jl unfolding max_heap_def by (simp add: nth_append)
  next
    fix j assume j: "0 < j \<and> j < int (length (h @ [x]))"
      and "getParentIndex j = int (length h) \<and> 0 < int (length h)"
    with parent_bounds[of j] have False by auto
    then show "kf ((h @ [x]) ! nat j) \<le> kf ((h @ [x]) ! nat (getParentIndex (int (length h))))" ..
  qed
  from heapifyUp_heap[OF _ _ inv] show ?thesis
    by (simp add: MaxHeap_insert_def)
qed

lemma MaxHeap_extractMax_Nil: "MaxHeap_extractMax kf [] = Inr (None, [])"
  by (simp add: MaxHeap_extractMax_def)

lemma MaxHeap_extractMax_total:
  assumes "h \<noteq> []"
  shows "\<exists>h'. MaxHeap_extractMax kf h = Inr (Some (h ! 0), h') \<and>
           add_mset (h ! 0) (mset h') = mset h \<and> length h' = length h - 1"
proof (cases "butlast h = []")
  case True
  with assms obtain x where "h = [x]"
    by (cases h) (auto split: if_splits)
  then show ?thesis
    by (simp add: MaxHeap_extractMax_def Let_def)
next
  case False
  let ?g = "(butlast h)[0 := last h]"
  have l2: "Suc 0 < length h" using False by (cases h) (auto split: if_splits)
  have len: "0 < int (length ?g)" using l2 by simp
  from heapifyDown_total[OF _ len, of kf] obtain h' where
    h': "MaxHeap_heapifyDown kf ?g 0 = Inr h'" "length h' = length ?g" "mset h' = mset ?g"
    by auto
  from l2 obtain x xs where h: "h = x # xs" "xs \<noteq> []"
    by (cases h) auto
  have "mset (butlast xs @ [last xs]) = mset xs" using h(2) by simp
  then have "add_mset (last xs) (mset (butlast xs)) = mset xs" by simp
  then have "add_mset (h ! 0) (mset ?g) = mset h"
    using h by simp
  then show ?thesis using h' assms False
    by (simp add: MaxHeap_extractMax_def Let_def)
qed

definition neg_postCount :: "user \<Rightarrow> int" where
  "neg_postCount u = - int (postCount u)"

lemma read_lt_postCount: "read_lt postCount h i j = read_gt neg_postCount h i j"
  by (simp add: read_lt_def read_gt_def neg_postCount_def split: option.splits)

lemma read_gt_postCount: "read_gt postCount h i j = read_lt neg_postCount h i j"
  by (simp add: read_lt_def read_gt_def neg_postCount_def split: option.splits)

lemma MinHeap_heapifyDown_eq:
  "MinHeap_heapifyDown h i = MaxHeap_heapifyDown neg_postCount h i"
proof (induction h i rule: MinHeap_heapifyDown.induct)
  case (1 heap index)
  let ?l = "getLeftChildIndex index" and ?r = "getRightChildIndex index"
  let ?c1 = "if ?l < int (length heap) then read_lt postCount heap ?l index else Inr False"
  show ?case
  proof (cases ?c1)
    case (Inl e)
    then show ?thesis
      by (subst MinHeap_heapifyDown.simps, subst MaxHeap_heapifyDown.simps)
        (auto simp: Let_def read_lt_postCount split: if_splits)
  next
    case c1: (Inr b1)
    let ?s = "if b1 then ?l else index"
    let ?c2 = "if ?r < int (length heap) then read_lt postCount heap ?r ?s else Inr False"
    show ?thesis
    proof (cases ?c2)
      case (Inl e)
      then show ?thesis using c1
        by (subst MinHeap_heapifyDown.simps, subst MaxHeap_heapifyDown.simps)
          (auto simp: Let_def read_lt_postCount split: if_splits)
    next
      case c2: (Inr b2)
      let ?s2 = "if b2 then ?r else ?s"
      show ?thesis
      proof (cases "?s2 = index")
        case True
        then show ?thesis using c1 c2
          by (subst MinHeap_heapifyDown.simps, subst MaxHeap_heapifyDown.simps)
            (auto simp: Let_def read_lt_postCount split: if_splits)
      next
        case False
        from 1[OF refl refl refl c1 refl c2 refl False]
        have "MinHeap_heapifyDown (swap heap index ?s2) ?s2 =
              MaxHeap_heapifyDown neg_postCount (swap heap index ?s2) ?s2" .
        then show ?thesis using c1 c2 False
          by (subst MinHeap_heapifyDown.simps, subst MaxHeap_heapifyDown.simps)
            (auto simp: Let_def read_lt_postCount split: if_splits)
      qed
    qed
  qed
qed

lemma MinHeap_heapifyUp_eq:
  "MinHeap_heapifyUp h i = MaxHeap_heapifyUp neg_postCount h i"
proof (induction h i rule: MinHeap_heapifyUp.induct)
  case (1 heap index)
  show ?case
    apply (subst MinHeap_heapifyUp.simps)
    apply (subst MaxHeap_heapifyUp.simps)
    using 1
    apply (simp add: Let_def read_gt_postCount split: sum.splits bool.splits)
    done
qed

lemma MinHeap_insert_eq: "MinHeap_insert h u = MaxHeap_insert neg_postCount h u"
  by (simp add: MinHeap_insert_def MaxHeap_insert_def MinHeap_heapifyUp_eq)

lemma MinHeap_extractMin_eq: "MinHeap_extractMin h = MaxHeap_extractMax neg_postCount h"
  by (simp add: MinHeap_extractMin_def MaxHeap_extractMax_def MinHeap_heapifyDown_eq Let_def)

lemma MaxHeap_extractMax_shorter:
  assumes "MaxHeap_extractMax kf h = Inr (Some x, h')"
  shows "length h' < length h"
proof (cases "h = []")
  case True
  with assms show ?thesis by (simp add: MaxHeap_extractMax_Nil)
next
  case False
  from MaxHeap_extractMax_total[OF False, of kf] assms show ?thesis
    using False by auto
qed

lemma MinHeap_extractMin_shorter:
  "MinHeap_extractMin h = Inr (Some x, h') \<Longrightarrow> length h' < length h"
  by (simp add: MinHeap_extractMin_eq MaxHeap_extractMax_shorter)

section \<open>The upstream service and the caches\<close>

text \<open>
  A post as the upstream service sends it: its \<open>id\<close> and its other properties, which
  the code only copies (\<open>{...post, username}\<close>, \<open>{...post, commentCount}\<close>).
\<close>

record post =
  post_id :: int
  post_fields :: "(string \<times> string) list"

record tagged_post = post +
  username :: string

record counted_post = tagged_post +
  commentCount :: nat

text \<open>
  What the upstream service answers during one aggregation cycle. \<open>Inl\<close> is a request
  that throws inside the \<open>try\<close> of its fetch function (the request rejected, or
  \<open>getAuthToken\<close> before it); \<open>Inr\<close> is the property read from the response body,
  \<open>None\<close> when the body does not have it.
  \<^item> \<open>GET /users\<close>: \<open>response.data.users\<close>, the object of user names by id, as
    the list of its entries in \<open>Object.entries\<close> order;
  \<^item> \<open>GET /users/:id/posts\<close>: \<open>response.data.posts\<close>;
  \<^item> \<open>GET /posts/:id/comments\<close>: \<open>response.data.comments\<close>.
\<close>

record upstream =
  users_response :: "error + (string \<times> string) list option"
  posts_response :: "string \<Rightarrow> error + post list option"
  comments_response :: "int \<Rightarrow> error + string list option"

text \<open>
  The cache entries the code reads and writes: \<open>userCache\<close>, \<open>latestPostsCache\<close> and
  \<open>popularPostsCache\<close> of apiManager.js (keys \<open>topUsers\<close>, \<open>latestPosts\<close>,
  \<open>popularPosts\<close>), and of cacheManager.js the entry \<open>topUsers\<close> of \<open>usersCache\<close>
  and the entries \<open>latest_posts\<close> and \<open>popular_posts\<close> of \<open>postsCache\<close>.
  \<open>None\<close> is an entry never set or expired, for which \<open>get\<close> returns \<open>undefined\<close>.
\<close>

record caches =
  userCache :: "user list option"
  latestPostsCache :: "tagged_post list option"
  popularPostsCache :: "counted_post list option"
  usersCache_topUsers :: "user list option"
  postsCache_latest_posts :: "tagged_post list option"
  postsCache_popular_posts :: "counted_post list option"

section \<open>apiManager.js\<close>

text \<open>\<open>fetchUsers\<close> logs and rethrows.\<close>

definition fetchUsers :: "upstream \<Rightarrow> error + (string \<times> string) list option" where
  "fetchUsers up = (case users_response up of Inl e \<Rightarrow> Inl e | Inr users \<Rightarrow> Inr users)"

text \<open>\<open>fetchUserPosts\<close>: \<open>response.data.posts || []\<close>, and \<open>[]\<close> from the \<open>catch\<close>.\<close>

definition fetchUserPosts :: "upstream \<Rightarrow> string \<Rightarrow> post list" where
  "fetchUserPosts up userId =
     (case posts_response up userId of
        Inl e \<Rightarrow> []
      | Inr None \<Rightarrow> []
      | Inr (Some posts) \<Rightarrow> posts)"

text \<open>\<open>fetchPostComments\<close>: \<open>response.data.comments\<close> as it is, and \<open>[]\<close> from the \<open>catch\<close>.\<close>

definition fetchPostComments :: "upstream \<Rightarrow> int \<Rightarrow> string list option" where
  "fetchPostComments up postId =
     (case comments_response up postId of
        Inl e \<Rightarrow> Some []
      | Inr comments \<Rightarrow> comments)"

subsection \<open>Top users\<close>

text \<open>The loop over \<open>Object.entries(users)\<close> that builds \<open>userWithPosts\<close>.\<close>

definition userWithPosts :: "upstream \<Rightarrow> (string \<times> string) list \<Rightarrow> user list" where
  "userWithPosts up users =
     map (\<lambda>(id, name).
            \<lparr>user_id = id, user_name = name, postCount = length (fetchUserPosts up id)\<rparr>)
         users"

text \<open>
  \<open>userWithPosts.forEach(user => { heap.insert(user); if (heap.size() > 5) heap.extractMin(); })\<close>
\<close>

fun insertUsers :: "user list \<Rightarrow> user list \<Rightarrow> error + user list" where
  "insertUsers heap [] = Inr heap"
| "insertUsers heap (u # rest) =
     (case MinHeap_insert heap u of
        Inl e \<Rightarrow> Inl e
      | Inr heap1 \<Rightarrow>
          (if length heap1 > 5
           then (case MinHeap_extractMin heap1 of
                   Inl e \<Rightarrow> Inl e
                 | Inr (_, heap2) \<Rightarrow> insertUsers heap2 rest)
           else insertUsers heap1 rest))"

text \<open>\<open>while (heap.size() > 0) { topUsers.unshift(heap.extractMin()); }\<close>\<close>

function unshiftAll :: "user list \<Rightarrow> user list \<Rightarrow> error + user list" where
  "unshiftAll heap topUsers =
     (if length heap > 0
      then (case MinHeap_extractMin heap of
              Inl e \<Rightarrow> Inl e
            | Inr (None, heap') \<Rightarrow> Inl NullElement
            | Inr (Some u, heap') \<Rightarrow> unshiftAll heap' (u # topUsers))
      else Inr topUsers)"
  by pat_completeness auto
termination
  by (relation "measure (\<lambda>(h, t). length h)") (auto simp: MinHeap_extractMin_shorter)

declare unshiftAll.simps [simp del]

text \<open>
  The selection both \<open>getTopUsers\<close> and \<open>updateUsersCache\<close> run on \<open>userWithPosts\<close>:
  a new \<open>MinHeap\<close>, the \<open>forEach\<close>, then the \<open>while\<close> loop into \<open>topUsers\<close>.
\<close>

definition selectTopUsers :: "user list \<Rightarrow> error + user list" where
  "selectTopUsers users =
     (case insertUsers [] users of
        Inl e \<Rightarrow> Inl e
      | Inr heap \<Rightarrow> unshiftAll heap [])"

text \<open>
  \<open>getTopUsers\<close> returns its result and leaves the caches changed; what it throws is
  \<open>Inl\<close>. \<open>Object.entries\<close> of \<open>undefined\<close> throws a \<open>TypeError\<close>.
\<close>

definition getTopUsers :: "upstream \<Rightarrow> caches \<Rightarrow> error + (user list \<times> caches)" where
  "getTopUsers up s =
     (case userCache s of
        Some cachedUsers \<Rightarrow> Inr (cachedUsers, s)
      | None \<Rightarrow>
          (case fetchUsers up of
             Inl e \<Rightarrow> Inl e
           | Inr None \<Rightarrow> Inl TypeError
           | Inr (Some users) \<Rightarrow>
               (case selectTopUsers (userWithPosts up users) of
                  Inl e \<Rightarrow> Inl e
                | Inr topUsers \<Rightarrow> Inr (topUsers, s\<lparr>userCache := Some topUsers\<rparr>))))"

subsection \<open>All posts\<close>

text \<open>
  \<open>fetchAllPosts\<close>. \<open>userId\<close> runs over \<open>Object.keys(users)\<close> and \<open>users[userId]\<close> is
  the name of that entry. \<open>fetchUserPosts\<close> returns an array, so the \<open>Array.isArray\<close>
  branch is the one taken. The \<open>catch\<close> returns \<open>[]\<close>.
\<close>

definition fetchAllPosts :: "upstream \<Rightarrow> tagged_post list" where
  "fetchAllPosts up =
     (case fetchUsers up of
        Inl e \<Rightarrow> []
      | Inr None \<Rightarrow> []
      | Inr (Some users) \<Rightarrow>
          foldl (\<lambda>allPosts (userId, name).
                   allPosts @
                   map (\<lambda>p. \<lparr>post_id = post_id p, post_fields = post_fields p, username = name\<rparr>)
                       (fetchUserPosts up userId))
                [] users)"

subsection \<open>Latest posts\<close>

text \<open>\<open>for (const post of allPosts) { heap.insert(post); }\<close>\<close>

fun insertAll :: "('a \<Rightarrow> int) \<Rightarrow> 'a list \<Rightarrow> 'a list \<Rightarrow> error + 'a list" where
  "insertAll keyFunction heap [] = Inr heap"
| "insertAll keyFunction heap (item # rest) =
     (case MaxHeap_insert keyFunction heap item of
        Inl e \<Rightarrow> Inl e
      | Inr heap' \<Rightarrow> insertAll keyFunction heap' rest)"

text \<open>
  \<open>for (let i = 0; i < extractCount; i++) { latestPosts.push(maxHeap.extractMax()); }\<close>,
  with the number of rounds left as first argument.
\<close>

fun pushMax :: "nat \<Rightarrow> ('a \<Rightarrow> int) \<Rightarrow> 'a list \<Rightarrow> 'a list \<Rightarrow> error + 'a list" where
  "pushMax 0 keyFunction heap latestPosts = Inr latestPosts"
| "pushMax (Suc n) keyFunction heap latestPosts =
     (case MaxHeap_extractMax keyFunction heap of
        Inl e \<Rightarrow> Inl e
      | Inr (None, heap') \<Rightarrow> Inl NullElement
      | Inr (Some p, heap') \<Rightarrow> pushMax n keyFunction heap' (latestPosts @ [p]))"

text \<open>
  The selection both \<open>getLatestPosts\<close> and \<open>updatePostsCache\<close> run on \<open>allPosts\<close>:
  a \<open>MaxHeap\<close> on \<open>post.id\<close>, then \<open>Math.min(5, size)\<close> extractions.
\<close>

definition selectLatestPosts :: "tagged_post list \<Rightarrow> error + tagged_post list" where
  "selectLatestPosts allPosts =
     (case insertAll post_id [] allPosts of
        Inl e \<Rightarrow> Inl e
      | Inr maxHeap \<Rightarrow> pushMax (min 5 (length maxHeap)) post_id maxHeap [])"

text \<open>\<open>getLatestPosts\<close> does not throw: its \<open>catch\<close> returns \<open>[]\<close> and caches nothing.\<close>

definition getLatestPosts :: "upstream \<Rightarrow> caches \<Rightarrow> tagged_post list \<times> caches" where
  "getLatestPosts up s =
     (case latestPostsCache s of
        Some cachedPosts \<Rightarrow> (cachedPosts, s)
      | None \<Rightarrow>
          (case selectLatestPosts (fetchAllPosts up) of
             Inl e \<Rightarrow> ([], s)
           | Inr latestPosts \<Rightarrow> (latestPosts, s\<lparr>latestPostsCache := Some latestPosts\<rparr>)))"

subsection \<open>Popular posts\<close>

definition commentKey :: "counted_post \<Rightarrow> int" where
  "commentKey p = int (commentCount p)"

text \<open>
  The loop that fetches the comments of each post and inserts the post with its
  \<open>commentCount\<close>. \<open>countComments\<close> is \<open>comments.length\<close>: in \<open>getPopularPosts\<close> a
  \<open>TypeError\<close> when the response had no comments, in \<open>updatePostsCache\<close>
  (\<open>fetchPostComments(post.id) || []\<close>) zero.
\<close>

definition commentsLength :: "upstream \<Rightarrow> tagged_post \<Rightarrow> error + nat" where
  "commentsLength up p =
     (case fetchPostComments up (post_id p) of
        None \<Rightarrow> Inl TypeError
      | Some comments \<Rightarrow> Inr (length comments))"

definition commentsLengthOrEmpty :: "upstream \<Rightarrow> tagged_post \<Rightarrow> error + nat" where
  "commentsLengthOrEmpty up p =
     (case fetchPostComments up (post_id p) of
        None \<Rightarrow> Inr 0
      | Some comments \<Rightarrow> Inr (length comments))"

fun insertWithComments ::
  "(tagged_post \<Rightarrow> error + nat) \<Rightarrow> counted_post list \<Rightarrow> tagged_post list \<Rightarrow>
   error + counted_post list" where
  "insertWithComments countComments heap [] = Inr heap"
| "insertWithComments countComments heap (p # rest) =
     (case countComments p of
        Inl e \<Rightarrow> Inl e
      | Inr n \<Rightarrow>
          (case MaxHeap_insert commentKey heap
                  \<lparr>post_id = post_id p, post_fields = post_fields p, username = username p,
                   commentCount = n\<rparr> of
             Inl e \<Rightarrow> Inl e
           | Inr heap' \<Rightarrow> insertWithComments countComments heap' rest))"

text \<open>
  \<open>while (heap.size() > 0 && heap.peek().commentCount === maxComments)
     { posts.push(heap.extractMax()); }\<close>
\<close>

function pushTies :: "nat \<Rightarrow> counted_post list \<Rightarrow> counted_post list \<Rightarrow> error + counted_post list" where
  "pushTies maxComments heap posts =
     (if length heap > 0
      then (case MaxHeap_peek heap of
              None \<Rightarrow> Inl TypeError
            | Some root \<Rightarrow>
                (if commentCount root = maxComments
                 then (case MaxHeap_extractMax commentKey heap of
                         Inl e \<Rightarrow> Inl e
                       | Inr (None, heap') \<Rightarrow> Inl NullElement
                       | Inr (Some p, heap') \<Rightarrow> pushTies maxComments heap' (posts @ [p]))
                 else Inr posts))
      else Inr posts)"
  by pat_completeness auto
termination
  by (relation "measure (\<lambda>(m, h, t). length h)") (auto simp: MaxHeap_extractMax_shorter)

declare pushTies.simps [simp del]

text \<open>
  \<open>posts.sort((a, b) => b.id - a.id)\<close>: descending by \<open>id\<close>; \<open>Array.prototype.sort\<close>
  is stable, as \<open>sort_key\<close> is.
\<close>

definition sortNewestFirst :: "counted_post list \<Rightarrow> counted_post list" where
  "sortNewestFirst posts = sort_key (\<lambda>p. - post_id p) posts"

text \<open>
  From \<open>commentHeap.peek()\<close> to the sorted list, on a heap that is not empty:
  \<open>topPost.commentCount\<close> on \<open>null\<close> would throw.
\<close>

definition mostCommented :: "counted_post list \<Rightarrow> error + counted_post list" where
  "mostCommented commentHeap =
     (case MaxHeap_peek commentHeap of
        None \<Rightarrow> Inl TypeError
      | Some topPost \<Rightarrow>
          (case pushTies (commentCount topPost) commentHeap [] of
             Inl e \<Rightarrow> Inl e
           | Inr mostCommentedPosts \<Rightarrow> Inr (sortNewestFirst mostCommentedPosts)))"

text \<open>
  \<open>getPopularPosts\<close>: with no posts it returns \<open>[]\<close> before anything is cached; its
  \<open>catch\<close> returns \<open>[]\<close> and caches nothing.
\<close>

definition getPopularPosts :: "upstream \<Rightarrow> caches \<Rightarrow> counted_post list \<times> caches" where
  "getPopularPosts up s =
     (case popularPostsCache s of
        Some cachedPosts \<Rightarrow> (cachedPosts, s)
      | None \<Rightarrow>
          (case insertWithComments (commentsLength up) [] (fetchAllPosts up) of
             Inl e \<Rightarrow> ([], s)
           | Inr commentHeap \<Rightarrow>
               (if length commentHeap = 0 then ([], s)
                else (case mostCommented commentHeap of
                        Inl e \<Rightarrow> ([], s)
                      | Inr result \<Rightarrow> (result, s\<lparr>popularPostsCache := Some result\<rparr>)))))"

subsection \<open>The scheduled refreshes\<close>

text \<open>
  \<open>updatePostsCache\<close>. An exception leaves the function through its \<open>catch\<close>, which
  only logs: the caches stay as they are at that point.
\<close>

definition updatePostsCache :: "upstream \<Rightarrow> caches \<Rightarrow> caches" where
  "updatePostsCache up s =
     (let allPosts = fetchAllPosts up
      in if length allPosts = 0
         then s\<lparr>latestPostsCache := Some [], popularPostsCache := Some []\<rparr>
         else
           (case selectLatestPosts allPosts of
              Inl e \<Rightarrow> s
            | Inr latestPosts \<Rightarrow>
                (let s1 = s\<lparr>latestPostsCache := Some latestPosts\<rparr>
                 in (case insertWithComments (commentsLengthOrEmpty up) [] allPosts of
                       Inl e \<Rightarrow> s1
                     | Inr commentHeap \<Rightarrow>
                         (if length commentHeap > 0
                          then (case mostCommented commentHeap of
                                  Inl e \<Rightarrow> s1
                                | Inr popularPosts \<Rightarrow>
                                    s1\<lparr>popularPostsCache := Some popularPosts\<rparr>)
                          else s1)))))"

text \<open>
  \<open>updateUsersCache\<close>. Its \<open>catch\<close> sets the entry to \<open>[]\<close>
  (\<open>// Set empty cache in case of error\<close>).
\<close>

definition updateUsersCache :: "upstream \<Rightarrow> caches \<Rightarrow> caches" where
  "updateUsersCache up s =
     (case fetchUsers up of
        Inl e \<Rightarrow> s\<lparr>userCache := Some []\<rparr>
      | Inr None \<Rightarrow> s\<lparr>userCache := Some []\<rparr>
      | Inr (Some users) \<Rightarrow>
          (if length (userWithPosts up users) = 0
           then s\<lparr>userCache := Some []\<rparr>
           else (case selectTopUsers (userWithPosts up users) of
                   Inl e \<Rightarrow> s\<lparr>userCache := Some []\<rparr>
                 | Inr topUsers \<Rightarrow> s\<lparr>userCache := Some topUsers\<rparr>)))"

section \<open>The endpoints\<close>

datatype body =
    Users "user list"
  | LatestPosts "tagged_post list"
  | PopularPosts "counted_post list"
  | ErrorBody string

record response =
  status :: nat
  body :: body

text \<open>\<open>GET /users\<close>\<close>

definition get_users :: "upstream \<Rightarrow> caches \<Rightarrow> response \<times> caches" where
  "get_users up s =
     (case usersCache_topUsers s of
        Some cachedUsers \<Rightarrow> (\<lparr>status = 200, body = Users cachedUsers\<rparr>, s)
      | None \<Rightarrow>
          (case getTopUsers up s of
             Inl e \<Rightarrow> (\<lparr>status = 500, body = ErrorBody ''Internal Server Error''\<rparr>, s)
           | Inr (topUsers, s') \<Rightarrow>
               (\<lparr>status = 200, body = Users topUsers\<rparr>,
                s'\<lparr>usersCache_topUsers := Some topUsers\<rparr>)))"

text \<open>
  \<open>GET /posts\<close>. The argument is \<open>req.query.type\<close> as a string, \<open>None\<close> when the
  query has no \<open>type\<close>. \<open>req.query.type || 'latest'\<close> is \<open>'latest'\<close> also for the
  empty string, which is falsy. Neither \<open>getLatestPosts\<close> nor \<open>getPopularPosts\<close>
  throws, so the \<open>catch\<close> of the handler (status 500) is not reached.
\<close>

definition get_posts :: "string option \<Rightarrow> upstream \<Rightarrow> caches \<Rightarrow> response \<times> caches" where
  \<open>get_posts query_type up s =
     (let type = (case query_type of
                    None \<Rightarrow> ''latest''
                  | Some t \<Rightarrow> if t = '''' then ''latest'' else t)
      in if type = ''latest'' then
           (case postsCache_latest_posts s of
              Some cachedLatestPosts \<Rightarrow> (\<lparr>status = 200, body = LatestPosts cachedLatestPosts\<rparr>, s)
            | None \<Rightarrow>
                (case getLatestPosts up s of
                   (latestPosts, s') \<Rightarrow>
                     (\<lparr>status = 200, body = LatestPosts latestPosts\<rparr>,
                      s'\<lparr>postsCache_latest_posts := Some latestPosts\<rparr>)))
         else if type = ''popular'' then
           (case postsCache_popular_posts s of
              Some cachedPopularPosts \<Rightarrow>
                (\<lparr>status = 200, body = PopularPosts cachedPopularPosts\<rparr>, s)
            | None \<Rightarrow>
                (case getPopularPosts up s of
                   (popularPosts, s') \<Rightarrow>
                     (\<lparr>status = 200, body = PopularPosts popularPosts\<rparr>,
                      s'\<lparr>postsCache_popular_posts := Some popularPosts\<rparr>)))
         else
           (\<lparr>status = 400,
             body = ErrorBody ''Invalid type parameter. Use "latest" or "popular".''\<rparr>, s))\<close>

section \<open>The selections\<close>

text \<open>
  Selection by keys: when the keys \<open>ks\<close> split into a kept part \<open>H\<close> of
  \<open>min k (length ks)\<close> keys and a dropped part \<open>R\<close> with nothing dropped above
  anything kept, the kept part is the first \<open>k\<close> keys of the descending sort.
\<close>

lemma take_largest:
  fixes ks :: "('k::linorder) list"
  assumes "mset ks = H + R" "\<forall>r\<in>#R. \<forall>x\<in>#H. r \<le> x" "size H = min k (length ks)"
  shows "mset (take k (rev (sort ks))) = H"
proof -
  let ?sH = "sorted_list_of_multiset H" and ?sR = "sorted_list_of_multiset R"
  have "sorted (?sR @ ?sH)"
    using assms(2) by (auto simp: sorted_append)
  moreover have "mset (?sR @ ?sH) = mset ks"
    using assms(1) by simp
  ultimately have "sort ks = ?sR @ ?sH"
    by (metis properties_for_sort)
  then have r: "rev (sort ks) = rev ?sH @ rev ?sR" by simp
  have len: "length ks = size H + size R"
    using assms(1) by (metis size_mset size_union)
  have lH: "length (rev ?sH) = size H"
    by (metis length_rev mset_sorted_list_of_multiset size_mset)
  show ?thesis
  proof (cases "k \<le> length ks")
    case True
    then have "size H = k" using assms(3) by simp
    then have "take k (rev (sort ks)) = rev ?sH" using r lH by simp
    then show ?thesis by simp
  next
    case False
    then have all: "size H = length ks" using assms(3) by simp
    then have "R = {#}" using len by simp
    then have "take k (rev (sort ks)) = rev ?sH" using r lH False all by simp
    then show ?thesis by simp
  qed
qed

definition min_heap :: "user list \<Rightarrow> bool" where
  "min_heap h = max_heap neg_postCount h"

lemma MinHeap_insert_heap:
  assumes "min_heap h"
  shows "\<exists>h'. MinHeap_insert h u = Inr h' \<and> mset h' = add_mset u (mset h) \<and> min_heap h'"
  using MaxHeap_insert_heap[of neg_postCount h u] assms
  by (simp add: min_heap_def MinHeap_insert_eq)

lemma MaxHeap_extractMax_heap:
  assumes "max_heap kf h" "h \<noteq> []"
  shows "\<exists>h'. MaxHeap_extractMax kf h = Inr (Some (h ! 0), h') \<and>
           add_mset (h ! 0) (mset h') = mset h \<and> max_heap kf h' \<and>
           (\<forall>x\<in>set h. kf x \<le> kf (h ! 0))"
proof (cases "butlast h = []")
  case True
  with assms(2) obtain x where "h = [x]"
    by (cases h) (auto split: if_splits)
  then show ?thesis
    by (simp add: MaxHeap_extractMax_def Let_def max_heap_def)
next
  case False
  let ?g = "(butlast h)[0 := last h]"
  have l2: "Suc 0 < length h" using False by (cases h) (auto split: if_splits)
  have len: "0 < int (length ?g)" using l2 by simp
  have inv: "max_heap_but_down kf ?g 0"
    unfolding max_heap_but_down_def
  proof (intro allI impI conjI)
    fix j assume j: "0 < j \<and> j < int (length ?g)" and np: "getParentIndex j \<noteq> 0"
    have pj: "0 \<le> getParentIndex j" "getParentIndex j < j"
      using parent_bounds[of j] j by simp_all
    have nj: "nat j < length (butlast h)" "nat (getParentIndex j) < length (butlast h)"
      using j pj by simp_all
    have "?g ! nat j = h ! nat j"
      using j nth_butlast[OF nj(1)] by simp
    moreover have "?g ! nat (getParentIndex j) = h ! nat (getParentIndex j)"
      using j pj np nth_butlast[OF nj(2)] by simp
    moreover have "0 < j \<and> j < int (length h)" using j by auto
    then have "kf (h ! nat j) \<le> kf (h ! nat (getParentIndex j))"
      using assms(1) unfolding max_heap_def by blast
    ultimately show "kf (?g ! nat j) \<le> kf (?g ! nat (getParentIndex j))" by simp
  next
    fix j assume "getParentIndex j = 0 \<and> (0::int) < 0"
    then show "kf (?g ! nat j) \<le> kf (?g ! nat (getParentIndex 0))" by simp
  qed
  from heapifyDown_heap[OF _ len inv] obtain h' where
    h': "MaxHeap_heapifyDown kf ?g 0 = Inr h'" "mset h' = mset ?g" "max_heap kf h'"
    by auto
  from l2 obtain x xs where h: "h = x # xs" "xs \<noteq> []"
    by (cases h) auto
  have "mset (butlast xs @ [last xs]) = mset xs" using h(2) by simp
  then have "add_mset (last xs) (mset (butlast xs)) = mset xs" by simp
  then have "add_mset (h ! 0) (mset ?g) = mset h"
    using h by simp
  moreover have "\<forall>x\<in>set h. kf x \<le> kf (h ! 0)"
    using max_heap_root_set[OF assms(1)] by blast
  ultimately show ?thesis using h' assms False
    by (simp add: MaxHeap_extractMax_def Let_def)
qed

lemma MinHeap_extractMin_heap:
  assumes "min_heap h" "h \<noteq> []"
  shows "\<exists>m h'. MinHeap_extractMin h = Inr (Some m, h') \<and>
           add_mset m (mset h') = mset h \<and> min_heap h' \<and>
           (\<forall>x\<in>set h. postCount m \<le> postCount x)"
  using MaxHeap_extractMax_heap[of neg_postCount h] assms
  by (auto simp: min_heap_def MinHeap_extractMin_eq neg_postCount_def)


definition desc_postCount :: "user list \<Rightarrow> bool" where
  "desc_postCount us = sorted_wrt (\<lambda>a b. postCount b \<le> postCount a) us"

lemma insertUsers_spec:
  assumes "min_heap h" "length h \<le> 5"
    "\<forall>r\<in>#R. \<forall>x\<in>set h. postCount r \<le> postCount x"
    "R \<noteq> {#} \<longrightarrow> length h = 5"
  shows "\<exists>h' R'. insertUsers h us = Inr h' \<and> min_heap h' \<and>
           mset h' + R' = mset h + R + mset us \<and>
           length h' = min 5 (length h + length us) \<and>
           (\<forall>r\<in>#R'. \<forall>x\<in>set h'. postCount r \<le> postCount x)"
  using assms
proof (induction us arbitrary: h R)
  case Nil
  then show ?case by auto
next
  case (Cons u us)
  from MinHeap_insert_heap[OF Cons.prems(1), of u] obtain h1 where
    h1: "MinHeap_insert h u = Inr h1" "mset h1 = add_mset u (mset h)" "min_heap h1"
    by auto
  have l1: "length h1 = Suc (length h)"
    using h1(2) by (metis size_mset size_add_mset)
  show ?case
  proof (cases "length h1 > 5")
    case True
    then have lh: "length h = 5" using l1 Cons.prems(2) by simp
    have "h1 \<noteq> []" using True by auto
    from MinHeap_extractMin_heap[OF h1(3) this] obtain m h2 where
      h2: "MinHeap_extractMin h1 = Inr (Some m, h2)" "add_mset m (mset h2) = mset h1"
        "min_heap h2" "\<forall>x\<in>set h1. postCount m \<le> postCount x"
      by auto
    have l2: "length h2 = 5"
      using h2(2) l1 lh by (metis size_mset size_add_mset Suc_inject)
    have inR: "\<forall>r\<in>#add_mset m R. \<forall>x\<in>set h2. postCount r \<le> postCount x"
    proof (intro ballI)
      fix r x assume r: "r \<in># add_mset m R" and x: "x \<in> set h2"
      have xin: "x \<in> set h1" using x h2(2) by (metis set_mset_mset union_single_eq_member insert_iff set_mset_add_mset_insert)
      show "postCount r \<le> postCount x"
      proof (cases "r = m")
        case True
        then show ?thesis using h2(4) xin by simp
      next
        case False
        then have rR: "r \<in># R" using r by simp
        show ?thesis
        proof (cases "x \<in> set h")
          case True
          then show ?thesis using Cons.prems(3) rR by blast
        next
          case xn: False
          then have "x = u" using xin h1(2) by (metis set_mset_mset insert_iff set_mset_add_mset_insert)
          have "m \<in> set h"
          proof (rule ccontr)
            assume mn: "m \<notin> set h"
            have "m \<in># add_mset u (mset h)"
              using h2(2) h1(2) by (metis union_single_eq_member)
            with mn have "m = u" by simp
            then have "mset h2 = mset h" using h2(2) h1(2) by simp
            then have "set h2 = set h" by (metis set_mset_mset)
            with x xn show False by simp
          qed
          then have "postCount r \<le> postCount m" using Cons.prems(3) rR by blast
          then show ?thesis using h2(4) xin by fastforce
        qed
      qed
    qed
    from Cons.IH[OF h2(3) _ inR, of ] l2 obtain h' R' where
      r: "insertUsers h2 us = Inr h'" "min_heap h'"
        "mset h' + R' = mset h2 + add_mset m R + mset us"
        "length h' = min 5 (length h2 + length us)"
        "\<forall>r\<in>#R'. \<forall>x\<in>set h'. postCount r \<le> postCount x"
      by auto
    have eq: "mset h' + R' = mset h + R + mset (u # us)"
      using r(3) h2(2) h1(2) by (simp add: ac_simps)
    have "insertUsers h (u # us) = Inr h'" using h1(1) h2(1) True r(1) by simp
    moreover have "length h' = min 5 (length h + length (u # us))" using r(4) l2 lh by simp
    ultimately show ?thesis using r(2,5) eq by blast
  next
    case False
    then have lh: "length h < 5" using l1 by simp
    then have R0: "R = {#}" using Cons.prems(4) by auto
    have "\<forall>r\<in>#R. \<forall>x\<in>set h1. postCount r \<le> postCount x" using R0 by simp
    moreover have "R \<noteq> {#} \<longrightarrow> length h1 = 5" using R0 by simp
    moreover have "length h1 \<le> 5" using False by simp
    ultimately obtain h' R' where
      r: "insertUsers h1 us = Inr h'" "min_heap h'"
        "mset h' + R' = mset h1 + R + mset us"
        "length h' = min 5 (length h1 + length us)"
        "\<forall>r\<in>#R'. \<forall>x\<in>set h'. postCount r \<le> postCount x"
      using Cons.IH[OF h1(3), of R] by blast
    have eq: "mset h' + R' = mset h + R + mset (u # us)"
      using r(3) h1(2) by (simp add: ac_simps)
    have "insertUsers h (u # us) = Inr h'" using h1(1) False r(1) by simp
    moreover have "length h' = min 5 (length h + length (u # us))" using r(4) l1 by simp
    ultimately show ?thesis using r(2,5) eq by blast
  qed
qed


lemma unshiftAll_spec:
  assumes "min_heap h" "\<forall>x\<in>set h. \<forall>t\<in>set acc. postCount t \<le> postCount x"
    "desc_postCount acc"
  shows "\<exists>top. unshiftAll h acc = Inr top \<and> mset top = mset h + mset acc \<and>
           desc_postCount top"
  using assms
proof (induction "length h" arbitrary: h acc rule: less_induct)
  case less
  show ?case
  proof (cases "h = []")
    case True
    then show ?thesis using less.prems(3) by (subst unshiftAll.simps) simp
  next
    case False
    from MinHeap_extractMin_heap[OF less.prems(1) False] obtain m h' where
      e: "MinHeap_extractMin h = Inr (Some m, h')" "add_mset m (mset h') = mset h"
        "min_heap h'" "\<forall>x\<in>set h. postCount m \<le> postCount x"
      by auto
    have sub: "set h' \<subseteq> set h" "m \<in> set h"
      using e(2) by (metis set_mset_mset set_mset_add_mset_insert subset_insertI,
          metis set_mset_mset union_single_eq_member)
    have shorter: "length h' < length h"
      using e(1) by (rule MinHeap_extractMin_shorter)
    have a: "\<forall>x\<in>set h'. \<forall>t\<in>set (m # acc). postCount t \<le> postCount x"
      using sub e(4) less.prems(2) by auto
    have b: "desc_postCount (m # acc)"
      using less.prems(2,3) sub(2) by (auto simp: desc_postCount_def)
    from less.hyps[OF shorter e(3) a b] obtain top where
      t: "unshiftAll h' (m # acc) = Inr top" "mset top = mset h' + mset (m # acc)"
        "desc_postCount top"
      by auto
    have "unshiftAll h acc = Inr top"
      using False e(1) t(1) by (subst unshiftAll.simps) simp
    moreover have "mset top = mset h + mset acc"
      using t(2) e(2) by (metis add_mset_add_single mset.simps(2) union_mset_add_mset_left union_mset_add_mset_right)
    ultimately show ?thesis using t(3) by blast
  qed
qed

lemma max_heap_Nil: "max_heap kf []"
  by (simp add: max_heap_def)

lemma selectTopUsers_spec:
  "\<exists>top. selectTopUsers us = Inr top \<and> desc_postCount top \<and>
         length top = min 5 (length us) \<and> mset top \<subseteq># mset us \<and>
         mset (map postCount top) = mset (take 5 (rev (sort (map postCount us))))"
proof -
  from insertUsers_spec[of "[]" "{#}" us] obtain h R where
    h: "insertUsers [] us = Inr h" "min_heap h" "mset h + R = mset us"
      "length h = min 5 (length us)" "\<forall>r\<in>#R. \<forall>x\<in>set h. postCount r \<le> postCount x"
    by (auto simp: min_heap_def max_heap_Nil)
  from unshiftAll_spec[OF h(2), of "[]"] obtain top where
    t: "unshiftAll h [] = Inr top" "mset top = mset h" "desc_postCount top"
    by (auto simp: desc_postCount_def)
  have len: "length top = min 5 (length us)"
    using t(2) h(4) by (metis size_mset)
  have sub: "mset top \<subseteq># mset us"
    using t(2) h(3) by (metis mset_subset_eq_add_left)
  let ?H = "image_mset postCount (mset top)" and ?R = "image_mset postCount R"
  have "mset (map postCount us) = ?H + ?R"
    using t(2) h(3) by (metis image_mset_union mset_map)
  moreover have "\<forall>r\<in>#?R. \<forall>x\<in>#?H. r \<le> x"
    using h(5) t(2) by (metis (no_types, lifting) image_iff set_image_mset set_mset_mset) 
  moreover have "size ?H = min 5 (length (map postCount us))"
    using len by simp
  ultimately have "mset (take 5 (rev (sort (map postCount us)))) = ?H"
    by (rule take_largest)
  then have "mset (map postCount top) = mset (take 5 (rev (sort (map postCount us))))"
    by simp
  moreover have "selectTopUsers us = Inr top"
    using h(1) t(1) by (simp add: selectTopUsers_def)
  ultimately show ?thesis using t(3) len sub by blast
qed

lemma take_largest_list:
  fixes ks :: "('k::linorder) list"
  assumes "mset ks = mset hs + R" "\<forall>r\<in>#R. \<forall>x\<in>set hs. r \<le> x"
    "length hs = min k (length ks)" "sorted (rev hs)"
  shows "take k (rev (sort ks)) = hs"
proof -
  let ?sR = "sorted_list_of_multiset R"
  have "sorted (?sR @ rev hs)"
    using assms(2,4) by (auto simp: sorted_append)
  moreover have "mset (?sR @ rev hs) = mset ks"
    using assms(1) by simp
  ultimately have "sort ks = ?sR @ rev hs"
    by (metis properties_for_sort)
  then have r: "rev (sort ks) = hs @ rev ?sR" by simp
  have len: "length ks = length hs + size R"
    using assms(1) by (metis size_mset size_union)
  show ?thesis
  proof (cases "k \<le> length ks")
    case True
    then have "length hs = k" using assms(3) by simp
    then show ?thesis using r by simp
  next
    case False
    then have all: "length hs = length ks" using assms(3) by simp
    then have "R = {#}" using len by simp
    then show ?thesis using r all False by simp
  qed
qed

lemma insertAll_spec:
  assumes "max_heap kf h"
  shows "\<exists>h'. insertAll kf h xs = Inr h' \<and> max_heap kf h' \<and> mset h' = mset h + mset xs"
  using assms
proof (induction xs arbitrary: h)
  case Nil
  then show ?case by simp
next
  case (Cons x xs)
  from MaxHeap_insert_heap[OF Cons.prems, of x] obtain h1 where
    h1: "MaxHeap_insert kf h x = Inr h1" "mset h1 = add_mset x (mset h)" "max_heap kf h1"
    by auto
  from Cons.IH[OF h1(3)] obtain h' where
    h': "insertAll kf h1 xs = Inr h'" "max_heap kf h'" "mset h' = mset h1 + mset xs"
    by auto
  show ?case using h1 h' by simp
qed

lemma pushMax_spec:
  assumes "max_heap kf h" "n \<le> length h" "sorted_wrt (\<lambda>a b. kf b \<le> kf a) acc"
    "\<forall>x\<in>set h. \<forall>t\<in>set acc. kf x \<le> kf t"
  shows "\<exists>out h'. pushMax n kf h acc = Inr out \<and> mset out + mset h' = mset acc + mset h \<and>
           length out = length acc + n \<and> sorted_wrt (\<lambda>a b. kf b \<le> kf a) out \<and>
           (\<forall>x\<in>set h'. \<forall>t\<in>set out. kf x \<le> kf t)"
  using assms
proof (induction n arbitrary: h acc)
  case 0
  then show ?case by auto
next
  case (Suc n)
  then have ne: "h \<noteq> []" by auto
  from MaxHeap_extractMax_heap[OF Suc.prems(1) ne] obtain h2 where
    e: "MaxHeap_extractMax kf h = Inr (Some (h ! 0), h2)" "add_mset (h ! 0) (mset h2) = mset h"
      "max_heap kf h2" "\<forall>x\<in>set h. kf x \<le> kf (h ! 0)"
    by auto
  let ?m = "h ! 0"
  have sub: "set h2 \<subseteq> set h" "?m \<in> set h"
    using e(2) by (metis set_mset_mset set_mset_add_mset_insert subset_insertI,
        metis set_mset_mset union_single_eq_member)
  have l2: "n \<le> length h2"
    using e(2) Suc.prems(2) by (metis Suc_le_mono size_add_mset size_mset)
  have a: "sorted_wrt (\<lambda>a b. kf b \<le> kf a) (acc @ [?m])"
    using Suc.prems(3,4) sub(2) by (auto simp: sorted_wrt_append)
  have b: "\<forall>x\<in>set h2. \<forall>t\<in>set (acc @ [?m]). kf x \<le> kf t"
    using Suc.prems(4) sub e(4) by auto
  from Suc.IH[OF e(3) l2 a b] obtain out h' where
    o: "pushMax n kf h2 (acc @ [?m]) = Inr out" "mset out + mset h' = mset (acc @ [?m]) + mset h2"
      "length out = length (acc @ [?m]) + n" "sorted_wrt (\<lambda>a b. kf b \<le> kf a) out"
      "\<forall>x\<in>set h'. \<forall>t\<in>set out. kf x \<le> kf t"
    by blast
  have "pushMax (Suc n) kf h acc = Inr out" using e(1) o(1) by simp
  moreover have "mset out + mset h' = mset acc + mset h"
    using o(2) e(2) by (simp add: ac_simps)
  moreover have "length out = length acc + Suc n" using o(3) by simp
  ultimately show ?case using o(4,5) by blast
qed

lemma selectLatestPosts_spec:
  "\<exists>latestPosts. selectLatestPosts allPosts = Inr latestPosts \<and>
     map post_id latestPosts = take 5 (rev (sort (map post_id allPosts))) \<and>
     mset latestPosts \<subseteq># mset allPosts"
proof -
  from insertAll_spec[OF max_heap_Nil, of post_id allPosts] obtain h where
    h: "insertAll post_id [] allPosts = Inr h" "max_heap post_id h" "mset h = mset allPosts"
    by auto
  have lh: "length h = length allPosts" using h(3) by (metis size_mset)
  from pushMax_spec[OF h(2), of "min 5 (length h)" "[]"] obtain out h' where
    o: "pushMax (min 5 (length h)) post_id h [] = Inr out" "mset out + mset h' = mset h"
      "length out = min 5 (length h)" "sorted_wrt (\<lambda>a b. post_id b \<le> post_id a) out"
      "\<forall>x\<in>set h'. \<forall>t\<in>set out. post_id x \<le> post_id t"
    by auto
  let ?R = "image_mset post_id (mset h')"
  have "mset (map post_id allPosts) = mset (map post_id out) + ?R"
    using o(2) h(3) by (metis image_mset_union mset_map)
  moreover have "\<forall>r\<in>#?R. \<forall>x\<in>set (map post_id out). r \<le> x"
    using o(5) by auto
  moreover have "length (map post_id out) = min 5 (length (map post_id allPosts))"
    using o(3) lh by simp
  moreover have "sorted (rev (map post_id out))"
    using o(4) by (simp add: sorted_wrt_rev sorted_wrt_map flip: rev_map)
  ultimately have "take 5 (rev (sort (map post_id allPosts))) = map post_id out"
    by (rule take_largest_list)
  moreover have "selectLatestPosts allPosts = Inr out"
    using h(1) o(1) by (simp add: selectLatestPosts_def)
  moreover have "mset out \<subseteq># mset allPosts"
    using o(2) h(3) by (metis mset_subset_eq_add_left)
  ultimately show ?thesis by auto
qed

lemma insertWithComments_spec:
  assumes "max_heap commentKey h" "\<forall>p\<in>set ps. \<exists>n. cnt p = Inr n"
  shows "\<exists>h'. insertWithComments cnt h ps = Inr h' \<and> max_heap commentKey h' \<and>
           mset h' = mset h +
             mset (map (\<lambda>p. \<lparr>post_id = post_id p, post_fields = post_fields p,
                               username = username p, commentCount = projr (cnt p)\<rparr>) ps)"
  using assms
proof (induction ps arbitrary: h)
  case Nil
  then show ?case by simp
next
  case (Cons p ps)
  from Cons.prems(2) obtain n where n: "cnt p = Inr n" by auto
  let ?q = "\<lparr>post_id = post_id p, post_fields = post_fields p, username = username p,
             commentCount = n\<rparr>"
  from MaxHeap_insert_heap[OF Cons.prems(1), of ?q] obtain h1 where
    h1: "MaxHeap_insert commentKey h ?q = Inr h1" "mset h1 = add_mset ?q (mset h)"
      "max_heap commentKey h1"
    by auto
  from Cons.IH[OF h1(3)] Cons.prems(2) obtain h' where
    h': "insertWithComments cnt h1 ps = Inr h'" "max_heap commentKey h'"
      "mset h' = mset h1 +
             mset (map (\<lambda>p. \<lparr>post_id = post_id p, post_fields = post_fields p,
                               username = username p, commentCount = projr (cnt p)\<rparr>) ps)"
    by auto
  show ?case using n h1 h' by simp
qed

lemma pushTies_spec:
  assumes "max_heap commentKey h" "\<forall>t\<in>set acc. commentCount t = M"
    "\<forall>x\<in>set h. commentCount x \<le> M"
  shows "\<exists>out h'. pushTies M h acc = Inr out \<and> mset out + mset h' = mset acc + mset h \<and>
           (\<forall>t\<in>set out. commentCount t = M) \<and> (\<forall>x\<in>set h'. commentCount x < M)"
  using assms
proof (induction "length h" arbitrary: h acc rule: less_induct)
  case less
  show ?case
  proof (cases "h = []")
    case True
    have "pushTies M h acc = Inr acc"
      using True by (subst pushTies.simps) simp
    then show ?thesis using True less.prems(2) by fastforce
  next
    case False
    then have pk: "MaxHeap_peek h = Some (h ! 0)" by (simp add: MaxHeap_peek_def)
    from MaxHeap_extractMax_heap[OF less.prems(1) False] obtain h2 where
      e: "MaxHeap_extractMax commentKey h = Inr (Some (h ! 0), h2)"
        "add_mset (h ! 0) (mset h2) = mset h" "max_heap commentKey h2"
        "\<forall>x\<in>set h. commentKey x \<le> commentKey (h ! 0)"
      by auto
    show ?thesis
    proof (cases "commentCount (h ! 0) = M")
      case True
      have sub: "set h2 \<subseteq> set h"
        using e(2) by (metis set_mset_mset set_mset_add_mset_insert subset_insertI)
      have shorter: "length h2 < length h"
        using e(1) by (rule MaxHeap_extractMax_shorter)
      have a: "\<forall>t\<in>set (acc @ [h ! 0]). commentCount t = M"
        using less.prems(2) True by auto
      have b: "\<forall>x\<in>set h2. commentCount x \<le> M"
        using less.prems(3) sub by auto
      from less.hyps[OF shorter e(3) a b] obtain out h' where
        o: "pushTies M h2 (acc @ [h ! 0]) = Inr out"
          "mset out + mset h' = mset (acc @ [h ! 0]) + mset h2"
          "\<forall>t\<in>set out. commentCount t = M" "\<forall>x\<in>set h'. commentCount x < M"
        by blast
      have "pushTies M h acc = Inr out"
        using False pk True e(1) o(1) by (subst pushTies.simps) simp
      moreover have "mset out + mset h' = mset acc + mset h"
        using o(2) e(2) by (simp add: ac_simps)
      ultimately show ?thesis using o(3,4) by blast
    next
      case ne: False
      have "pushTies M h acc = Inr acc"
        using False pk ne by (subst pushTies.simps) simp
      moreover have "\<forall>x\<in>set h. commentCount x < M"
      proof
        fix x assume x: "x \<in> set h"
        have "h ! 0 \<in> set h" using False by simp
        then have "commentCount (h ! 0) < M" using less.prems(3) ne by fastforce
        moreover have "commentCount x \<le> commentCount (h ! 0)"
          using e(4) x by (simp add: commentKey_def)
        ultimately show "commentCount x < M" by simp
      qed
      ultimately show ?thesis using less.prems(2) by blast
    qed
  qed
qed

lemma filter_mset_all: "(\<forall>x\<in>#M. P x) \<Longrightarrow> filter_mset P M = M"
  by (induction M) auto

lemma mostCommented_spec:
  assumes "max_heap commentKey h" "h \<noteq> []"
  shows "\<exists>result M. mostCommented h = Inr result \<and>
           (\<forall>x\<in>set h. commentCount x \<le> M) \<and> (\<exists>x\<in>set h. commentCount x = M) \<and>
           mset result = filter_mset (\<lambda>p. commentCount p = M) (mset h) \<and>
           sorted_wrt (\<lambda>a b. post_id b \<le> post_id a) result"
proof -
  let ?M = "commentCount (h ! 0)"
  have pk: "MaxHeap_peek h = Some (h ! 0)" using assms(2) by (simp add: MaxHeap_peek_def)
  have top: "\<forall>x\<in>set h. commentCount x \<le> ?M"
    using max_heap_root_set[OF assms(1)] by (simp add: commentKey_def)
  from pushTies_spec[OF assms(1) _ top, of "[]"] obtain out h' where
    o: "pushTies ?M h [] = Inr out" "mset out + mset h' = mset h"
      "\<forall>t\<in>set out. commentCount t = ?M" "\<forall>x\<in>set h'. commentCount x < ?M"
    by auto
  have "filter_mset (\<lambda>p. commentCount p = ?M) (mset out + mset h') = mset out"
    using o(3,4) by (auto simp: filter_mset_all)
  then have f: "mset out = filter_mset (\<lambda>p. commentCount p = ?M) (mset h)"
    using o(2) by simp
  have "sorted (map (\<lambda>p. - post_id p) (sortNewestFirst out))"
    unfolding sortNewestFirst_def by (rule sorted_sort_key)
  then have s: "sorted_wrt (\<lambda>a b. post_id b \<le> post_id a) (sortNewestFirst out)"
    by (simp add: sorted_wrt_map)
  have m: "mset (sortNewestFirst out) = mset out"
    by (simp add: sortNewestFirst_def)
  have "mostCommented h = Inr (sortNewestFirst out)"
    using pk o(1) by (simp add: mostCommented_def)
  moreover have "h ! 0 \<in> set h" using assms(2) by simp
  then have "\<exists>x\<in>set h. commentCount x = ?M" by blast
  ultimately show ?thesis using top f s m by metis
qed

definition withComments :: "upstream \<Rightarrow> tagged_post \<Rightarrow> counted_post" where
  "withComments up p =
     \<lparr>post_id = post_id p, post_fields = post_fields p, username = username p,
      commentCount = projr (commentsLength up p)\<rparr>"

lemma getPopularPosts_spec:
  assumes "popularPostsCache s = None"
    "\<forall>p\<in>set (fetchAllPosts up). \<exists>n. commentsLength up p = Inr n"
    "fetchAllPosts up \<noteq> []"
  shows "\<exists>result M.
           getPopularPosts up s = (result, s\<lparr>popularPostsCache := Some result\<rparr>) \<and>
           (\<forall>x\<in>set (map (withComments up) (fetchAllPosts up)). commentCount x \<le> M) \<and>
           (\<exists>x\<in>set (map (withComments up) (fetchAllPosts up)). commentCount x = M) \<and>
           mset result =
             filter_mset (\<lambda>p. commentCount p = M)
               (mset (map (withComments up) (fetchAllPosts up))) \<and>
           sorted_wrt (\<lambda>a b. post_id b \<le> post_id a) result"
proof -
  let ?cps = "map (withComments up) (fetchAllPosts up)"
  from insertWithComments_spec[OF max_heap_Nil assms(2)] obtain h where
    h: "insertWithComments (commentsLength up) [] (fetchAllPosts up) = Inr h"
      "max_heap commentKey h" "mset h = mset ?cps"
    unfolding withComments_def by auto
  have ne: "h \<noteq> []" using h(3) assms(3) by auto
  have sh: "set h = set ?cps" using h(3) by (metis set_mset_mset)
  from mostCommented_spec[OF h(2) ne] obtain result M where
    r: "mostCommented h = Inr result" "\<forall>x\<in>set h. commentCount x \<le> M"
      "\<exists>x\<in>set h. commentCount x = M"
      "mset result = filter_mset (\<lambda>p. commentCount p = M) (mset h)"
      "sorted_wrt (\<lambda>a b. post_id b \<le> post_id a) result"
    by blast
  have g: "getPopularPosts up s = (result, s\<lparr>popularPostsCache := Some result\<rparr>)"
    using assms(1) h(1) ne r(1) by (simp add: getPopularPosts_def)
  have r2: "\<forall>x\<in>set ?cps. commentCount x \<le> M" using r(2) sh by simp
  have r3: "\<exists>x\<in>set ?cps. commentCount x = M" using r(3) sh by simp
  have r4: "mset result = filter_mset (\<lambda>p. commentCount p = M) (mset ?cps)"
    using r(4) h(3) by simp
  show ?thesis
    by (intro exI[of _ result] exI[of _ M] conjI g r2 r3 r4 r(5))
qed

lemma desc_ids_unique:
  fixes xs :: "int list"
  assumes "sorted_wrt (\<lambda>a b. b \<le> a) xs" "mset xs = mset ys" "sorted (rev ys)"
  shows "xs = ys"
proof -
  have "sorted (rev xs)" using assms(1) by (simp add: sorted_wrt_rev)
  then have "sort (rev ys) = rev xs"
    using assms(2) by (intro properties_for_sort) simp_all
  moreover have "sort (rev ys) = rev ys"
    using assms(3) by (simp add: sort_key_id_if_sorted)
  ultimately show ?thesis by simp
qed

lemma map_const_replicate: "\<forall>x\<in>set xs. f x = c \<Longrightarrow> map f xs = replicate (length xs) c"
  by (induction xs) auto

text \<open>The list of \<open>fetchAllPosts\<close> as a concatenation over the users.\<close>

lemma unshiftAll_Nil: "unshiftAll [] acc = Inr acc"
  by (subst unshiftAll.simps) simp

lemma foldl_append_concat:
  "foldl (\<lambda>acc x. acc @ f x) a xs = a @ concat (map f xs)"
  by (induction xs arbitrary: a) simp_all

lemma fetchAllPosts_concat:
  assumes "fetchUsers up = Inr (Some users)"
  shows "fetchAllPosts up =
           concat (map (\<lambda>(userId, name).
                          map (\<lambda>p. \<lparr>post_id = post_id p, post_fields = post_fields p,
                                      username = name\<rparr>)
                              (fetchUserPosts up userId)) users)"
proof -
  have "(\<lambda>allPosts (userId, name). allPosts @
           map (\<lambda>p. \<lparr>post_id = post_id p, post_fields = post_fields p, username = name\<rparr>)
             (fetchUserPosts up userId)) =
        (\<lambda>allPosts x. allPosts @ (\<lambda>(userId, name).
           map (\<lambda>p. \<lparr>post_id = post_id p, post_fields = post_fields p, username = name\<rparr>)
             (fetchUserPosts up userId)) x)"
    by (auto simp: fun_eq_iff)
  then show ?thesis
    using assms by (simp add: fetchAllPosts_def foldl_append_concat)
qed

lemma concat_map_filter_nonempty:
  assumes "\<And>x. x \<in> set xs \<Longrightarrow> \<not> P x \<Longrightarrow> f x = []"
  shows "concat (map f xs) = concat (map f (filter P xs))"
  using assms by (induction xs) auto

section \<open>Cache states the service can be in\<close>

text \<open>
  The caches start empty. Each operation of the service runs as one step (the code
  reads a cache at its start and writes what it computed at its end); an entry of the
  caches of cacheManager.js can expire at any time.
\<close>

definition empty_caches :: caches where
  "empty_caches =
     \<lparr>userCache = None, latestPostsCache = None, popularPostsCache = None,
      usersCache_topUsers = None, postsCache_latest_posts = None,
      postsCache_popular_posts = None\<rparr>"

inductive reachable :: "caches \<Rightarrow> bool" where
  start: "reachable empty_caches"
| expire_topUsers: "reachable s \<Longrightarrow> reachable (s\<lparr>usersCache_topUsers := None\<rparr>)"
| expire_latest_posts: "reachable s \<Longrightarrow> reachable (s\<lparr>postsCache_latest_posts := None\<rparr>)"
| expire_popular_posts: "reachable s \<Longrightarrow> reachable (s\<lparr>postsCache_popular_posts := None\<rparr>)"
| call_getTopUsers: "reachable s \<Longrightarrow> getTopUsers up s = Inr (r, s') \<Longrightarrow> reachable s'"
| call_getLatestPosts: "reachable s \<Longrightarrow> reachable (snd (getLatestPosts up s))"
| call_getPopularPosts: "reachable s \<Longrightarrow> reachable (snd (getPopularPosts up s))"
| run_updatePostsCache: "reachable s \<Longrightarrow> reachable (updatePostsCache up s)"
| run_updateUsersCache: "reachable s \<Longrightarrow> reachable (updateUsersCache up s)"
| request_users: "reachable s \<Longrightarrow> reachable (snd (get_users up s))"
| request_posts: "reachable s \<Longrightarrow> reachable (snd (get_posts t up s))"

definition top5_sorted :: "user list \<Rightarrow> bool" where
  "top5_sorted us = (length us \<le> 5 \<and> desc_postCount us)"

definition users_cached_ok :: "caches \<Rightarrow> bool" where
  "users_cached_ok s =
     ((case userCache s of None \<Rightarrow> True | Some us \<Rightarrow> top5_sorted us) \<and>
      (case usersCache_topUsers s of None \<Rightarrow> True | Some us \<Rightarrow> top5_sorted us))"

lemma selectTopUsers_top5_sorted:
  "selectTopUsers us = Inr r \<Longrightarrow> top5_sorted r"
  using selectTopUsers_spec[of us] by (auto simp: top5_sorted_def)

lemma getTopUsers_ok:
  assumes "users_cached_ok s" "getTopUsers up s = Inr (r, s')"
  shows "top5_sorted r \<and> users_cached_ok s'"
  using assms
  by (auto simp: getTopUsers_def users_cached_ok_def selectTopUsers_top5_sorted
      split: option.splits sum.splits)

lemma getLatestPosts_users [simp]:
  "userCache (snd (getLatestPosts up s)) = userCache s"
  "usersCache_topUsers (snd (getLatestPosts up s)) = usersCache_topUsers s"
  by (auto simp: getLatestPosts_def split: option.splits sum.splits)

lemma getPopularPosts_users [simp]:
  "userCache (snd (getPopularPosts up s)) = userCache s"
  "usersCache_topUsers (snd (getPopularPosts up s)) = usersCache_topUsers s"
  by (auto simp: getPopularPosts_def split: option.splits sum.splits)

lemma updatePostsCache_users [simp]:
  "userCache (updatePostsCache up s) = userCache s"
  "usersCache_topUsers (updatePostsCache up s) = usersCache_topUsers s"
  by (auto simp: updatePostsCache_def Let_def split: option.splits sum.splits)

lemma get_posts_users [simp]:
  "userCache (snd (get_posts t up s)) = userCache s"
  "usersCache_topUsers (snd (get_posts t up s)) = usersCache_topUsers s"
proof -
  obtain l s1 where l: "getLatestPosts up s = (l, s1)"
    by (cases "getLatestPosts up s")
  obtain p s2 where p: "getPopularPosts up s = (p, s2)"
    by (cases "getPopularPosts up s")
  have "userCache s1 = userCache s" "usersCache_topUsers s1 = usersCache_topUsers s"
    "userCache s2 = userCache s" "usersCache_topUsers s2 = usersCache_topUsers s"
    using getLatestPosts_users[of up s] getPopularPosts_users[of up s] l p by simp_all
  then show "userCache (snd (get_posts t up s)) = userCache s"
    "usersCache_topUsers (snd (get_posts t up s)) = usersCache_topUsers s"
    using l p by (simp_all add: get_posts_def Let_def split: option.splits)
qed

lemma top5_sorted_Nil: "top5_sorted []"
  by (simp add: top5_sorted_def desc_postCount_def)

lemma updateUsersCache_ok:
  "users_cached_ok s \<Longrightarrow> users_cached_ok (updateUsersCache up s)"
  by (auto simp: updateUsersCache_def users_cached_ok_def selectTopUsers_top5_sorted
      top5_sorted_Nil split: option.splits sum.splits)

lemma get_users_ok:
  assumes "users_cached_ok s"
  shows "users_cached_ok (snd (get_users up s)) \<and>
         (case body (fst (get_users up s)) of Users us \<Rightarrow> top5_sorted us | _ \<Rightarrow> True)"
proof (cases "usersCache_topUsers s")
  case (Some us)
  then show ?thesis using assms by (simp add: get_users_def users_cached_ok_def)
next
  case None
  show ?thesis
  proof (cases "getTopUsers up s")
    case (Inl e)
    then show ?thesis using None assms by (simp add: get_users_def)
  next
    case (Inr p)
    obtain r s' where p: "p = (r, s')" by (cases p)
    from getTopUsers_ok[OF assms Inr[unfolded p]] show ?thesis
      using None Inr p by (simp add: get_users_def users_cached_ok_def)
  qed
qed

lemma reachable_users_ok: "reachable s \<Longrightarrow> users_cached_ok s"
proof (induction rule: reachable.induct)
  case start
  then show ?case by (simp add: users_cached_ok_def empty_caches_def)
next
  case (call_getTopUsers s up r s')
  then show ?case using getTopUsers_ok by blast
next
  case (run_updateUsersCache s up)
  then show ?case by (simp add: updateUsersCache_ok)
next
  case (request_users s up)
  then show ?case by (simp add: get_users_ok)
qed (simp_all add: users_cached_ok_def)

section \<open>Example data\<close>

definition example_post :: "int \<Rightarrow> post" where
  "example_post i = \<lparr>post_id = i, post_fields = [(''content'', ''hello'')]\<rparr>"

text \<open>Six users; the posts of user 3 cannot be fetched, user 5 has no \<open>posts\<close> in the response.\<close>

definition six_users :: "(string \<times> string) list" where
  "six_users =
     [(''1'', ''Ann''), (''2'', ''Bob''), (''3'', ''Cid''), (''4'', ''Dee''), (''5'', ''Eve''),
      (''6'', ''Fay'')]"

definition six_users_upstream :: upstream where
  "six_users_upstream =
     \<lparr>users_response = Inr (Some six_users),
      posts_response =
        (\<lambda>userId.
           if userId = ''1'' then Inr (Some (map example_post [11, 12, 13]))
           else if userId = ''2'' then Inr (Some (map example_post [21]))
           else if userId = ''3'' then Inl RequestFailed
           else if userId = ''4'' then Inr (Some (map example_post [41, 42, 43, 44]))
           else if userId = ''5'' then Inr None
           else if userId = ''6'' then Inr (Some (map example_post [61, 62]))
           else Inl RequestFailed),
      comments_response = (\<lambda>postId. Inr (Some (replicate (nat (postId mod 3)) ''nice'')))\<rparr>"

lemma six_users_counts:
  "map postCount (userWithPosts six_users_upstream six_users) = [3, 1, 0, 4, 0, 2]"
  by (simp add: userWithPosts_def six_users_def six_users_upstream_def fetchUserPosts_def)


text \<open>The users listing cannot be fetched.\<close>

definition failing_upstream :: upstream where
  "failing_upstream =
     \<lparr>users_response = Inl RequestFailed,
      posts_response = (\<lambda>userId. Inl RequestFailed),
      comments_response = (\<lambda>postId. Inl RequestFailed)\<rparr>"

text \<open>Caches filled by an earlier refresh.\<close>

definition warm_caches :: caches where
  "warm_caches =
     \<lparr>userCache = Some [\<lparr>user_id = ''1'', user_name = ''Ann'', postCount = 3\<rparr>],
      latestPostsCache =
        Some [\<lparr>post_id = 13, post_fields = [], username = ''Ann''\<rparr>],
      popularPostsCache =
        Some [\<lparr>post_id = 11, post_fields = [], username = ''Ann'', commentCount = 2\<rparr>],
      usersCache_topUsers = None, postsCache_latest_posts = None,
      postsCache_popular_posts = None\<rparr>"

text \<open>No users at all.\<close>

definition no_users_upstream :: upstream where
  "no_users_upstream =
     \<lparr>users_response = Inr (Some []),
      posts_response = (\<lambda>userId. Inl RequestFailed),
      comments_response = (\<lambda>postId. Inl RequestFailed)\<rparr>"

definition four_users :: "(string \<times> string) list" where
  "four_users = [(''u1'', ''Ann''), (''u2'', ''Bob''), (''u3'', ''Cid''), (''u4'', ''Dee'')]"

definition four_users_upstream :: upstream where
  "four_users_upstream =
     \<lparr>users_response = Inr (Some four_users),
      posts_response =
        (\<lambda>userId.
           if userId = ''u1'' then Inr (Some (map example_post [11, 12]))
           else if userId = ''u2'' then Inr (Some (map example_post [21]))
           else if userId = ''u4'' then Inr (Some (map example_post [41, 42, 43]))
           else Inl RequestFailed),
      comments_response = (\<lambda>postId. Inr (Some []))\<rparr>"

definition eight_posts_upstream :: upstream where
  "eight_posts_upstream =
     \<lparr>users_response = Inr (Some [(''u1'', ''Ann''), (''u2'', ''Bob''), (''u3'', ''Cid'')]),
      posts_response =
        (\<lambda>userId.
           if userId = ''u1'' then Inr (Some (map example_post [3, 1, 8]))
           else if userId = ''u2'' then Inr (Some (map example_post [5, 2]))
           else if userId = ''u3'' then Inr (Some (map example_post [7, 4, 6]))
           else Inl RequestFailed),
      comments_response = (\<lambda>postId. Inr (Some []))\<rparr>"

lemma eight_posts_ids:
  "map post_id (fetchAllPosts eight_posts_upstream) = [3, 1, 8, 5, 2, 7, 4, 6]"
  by (simp add: fetchAllPosts_def fetchUsers_def fetchUserPosts_def eight_posts_upstream_def
      example_post_def)

definition five_posts_upstream :: upstream where
  "five_posts_upstream =
     \<lparr>users_response = Inr (Some [(''u1'', ''Ann''), (''u2'', ''Bob'')]),
      posts_response =
        (\<lambda>userId.
           if userId = ''u1'' then Inr (Some (map example_post [1, 2, 3]))
           else if userId = ''u2'' then Inr (Some (map example_post [4, 5]))
           else Inl RequestFailed),
      comments_response =
        (\<lambda>postId.
           if postId = 1 then Inr (Some (replicate 3 ''nice''))
           else if postId = 4 then Inr (Some (replicate 2 ''nice''))
           else Inr (Some (replicate 5 ''nice'')))\<rparr>"

lemma five_posts_scores:
  "map (\<lambda>p. (post_id p, commentsLength five_posts_upstream p)) (fetchAllPosts five_posts_upstream) =
     [(1, Inr 3), (2, Inr 5), (3, Inr 5), (4, Inr 2), (5, Inr 5)]"
  by (simp add: fetchAllPosts_def fetchUsers_def fetchUserPosts_def five_posts_upstream_def
      example_post_def commentsLength_def fetchPostComments_def)

section \<open>Claims\<close>

text \<open>
  C1. For every list \<open>us\<close> of scored users, the selection of \<open>getTopUsers\<close> (each
  user inserted into the \<open>MinHeap\<close>, the minimum extracted whenever the heap holds more
  than 5) ends without an exception and keeps \<open>min 5 (length us)\<close> of the users; their
  scores are, as a multiset, the 5 largest of the descending sort of all the scores; an
  input of fewer than 5 users is kept whole. On a cache miss \<open>getTopUsers\<close> returns
  and caches this selection of the users it built from the upstream answers.
\<close>

theorem getTopUsers_keeps_top5:
  "\<exists>topUsers.
     selectTopUsers us = Inr topUsers \<and>
     mset topUsers \<subseteq># mset us \<and>
     length topUsers = min 5 (length us) \<and>
     mset (map postCount topUsers) = mset (take 5 (rev (sort (map postCount us)))) \<and>
     (length us < 5 \<longrightarrow> mset topUsers = mset us) \<and>
     (userCache s = None \<and> fetchUsers up = Inr (Some users) \<and> us = userWithPosts up users \<longrightarrow>
        getTopUsers up s = Inr (topUsers, s\<lparr>userCache := Some topUsers\<rparr>))"
proof -
  from selectTopUsers_spec[of us] obtain topUsers where
    t: "selectTopUsers us = Inr topUsers" "length topUsers = min 5 (length us)"
      "mset topUsers \<subseteq># mset us"
      "mset (map postCount topUsers) = mset (take 5 (rev (sort (map postCount us))))"
    by auto
  have "mset topUsers = mset us" if "length us < 5"
  proof -
    have "size (mset topUsers) = size (mset us)" using t(2) that by simp
    with t(3) show ?thesis
      by (metis mset_subset_size nat_less_le subset_mset.le_imp_less_or_eq)
  qed
  moreover have "getTopUsers up s = Inr (topUsers, s\<lparr>userCache := Some topUsers\<rparr>)"
    if "userCache s = None \<and> fetchUsers up = Inr (Some users) \<and> us = userWithPosts up users"
    using that t(1) by (simp add: getTopUsers_def)
  ultimately show ?thesis using t by blast
qed

theorem getTopUsers_keeps_top5_witness:
  "\<exists>topUsers.
     getTopUsers six_users_upstream empty_caches =
       Inr (topUsers, empty_caches\<lparr>userCache := Some topUsers\<rparr>) \<and>
     length topUsers = 5 \<and>
     mset (map postCount topUsers) = {#4, 3, 2, 1, 0#}"
proof -
  have h: "userCache empty_caches = None \<and>
           fetchUsers six_users_upstream = Inr (Some six_users) \<and>
           userWithPosts six_users_upstream six_users = userWithPosts six_users_upstream six_users"
    by (simp add: empty_caches_def fetchUsers_def six_users_upstream_def)
  have l: "length (userWithPosts six_users_upstream six_users) = 6"
    by (simp add: userWithPosts_def six_users_def)
  have srt: "take 5 (rev (sort (map postCount (userWithPosts six_users_upstream six_users)))) = [4, 3, 2, 1, 0]"
    by (simp add: six_users_counts)
  from getTopUsers_keeps_top5[of "userWithPosts six_users_upstream six_users" empty_caches
      six_users_upstream six_users]
  show ?thesis using h l srt by auto
qed

text \<open>
  C2. When the posts that \<open>fetchAllPosts\<close> delivers have, in any order, the
  identifiers 1, 2, 3, 4, 5 with 3, 5, 5, 2, 5 comments, \<open>getPopularPosts\<close> (on a
  cache miss) returns and caches exactly the posts 2, 3 and 5, those with the maximal
  comment count 5, in the order 5, 3, 2 of descending identifier.
\<close>

theorem popular_of_five_posts:
  assumes "popularPostsCache s = None"
    "mset (map (\<lambda>p. (post_id p, commentsLength up p)) (fetchAllPosts up)) =
       mset [(1, Inr 3), (2, Inr 5), (3, Inr 5), (4, Inr 2), (5, Inr 5)]"
  shows "\<exists>result.
           getPopularPosts up s = (result, s\<lparr>popularPostsCache := Some result\<rparr>) \<and>
           map post_id result = [5, 3, 2] \<and>
           map commentCount result = [5, 5, 5]"
proof -
  let ?ps = "fetchAllPosts up"
  let ?f = "\<lambda>q :: counted_post. (post_id q, commentCount q)"
  define cps where "cps = map (withComments up) ?ps"
  have sets: "set (map (\<lambda>p. (post_id p, commentsLength up p)) ?ps) =
              set [(1, Inr 3), (2, Inr 5), (3, Inr 5), (4, Inr 2), (5, Inr 5)]"
    using assms(2) by (rule mset_eq_setD)
  have ok: "\<forall>p\<in>set ?ps. \<exists>n. commentsLength up p = Inr n"
  proof
    fix p assume "p \<in> set ?ps"
    then have "(post_id p, commentsLength up p) \<in>
                 set (map (\<lambda>p. (post_id p, commentsLength up p)) ?ps)"
      by simp
    then have "(post_id p, commentsLength up p) \<in>
                 set [(1, Inr 3), (2, Inr 5), (3, Inr 5), (4, Inr 2), (5, Inr 5)]"
      unfolding sets .
    then show "\<exists>n. commentsLength up p = Inr n" by auto
  qed
  have ne: "?ps \<noteq> []"
  proof
    assume e: "?ps = []"
    have "(1, Inr 3) \<in> set (map (\<lambda>p. (post_id p, commentsLength up p)) ?ps)"
      unfolding sets by simp
    then show False unfolding e by simp
  qed
  have "map ?f cps =
        map (\<lambda>(i, c). (i, projr c)) (map (\<lambda>p. (post_id p, commentsLength up p)) ?ps)"
    by (simp add: cps_def withComments_def)
  then have "mset (map ?f cps) =
      image_mset (\<lambda>(i, c). (i, projr c)) (mset (map (\<lambda>p. (post_id p, commentsLength up p)) ?ps))"
    by (simp only: mset_map)
  then have E: "image_mset ?f (mset cps) = {#(1, 3), (2, 5), (3, 5), (4, 2), (5, 5)#}"
    unfolding assms(2) by simp
  from getPopularPosts_spec[OF assms(1) ok ne, folded cps_def] obtain result M where
    r: "getPopularPosts up s = (result, s\<lparr>popularPostsCache := Some result\<rparr>)"
      "\<forall>x\<in>set cps. commentCount x \<le> M" "\<exists>x\<in>set cps. commentCount x = M"
      "mset result = filter_mset (\<lambda>p. commentCount p = M) (mset cps)"
      "sorted_wrt (\<lambda>a b. post_id b \<le> post_id a) result"
    by blast
  have "image_mset commentCount (mset cps) = image_mset snd (image_mset ?f (mset cps))"
    by (simp add: image_mset.compositionality comp_def)
  then have "image_mset commentCount (mset cps) = {#3, 5, 5, 2, 5#}"
    unfolding E by simp
  then have "set_mset (image_mset commentCount (mset cps)) = set_mset {#3, 5, 5, 2, 5#}"
    by (simp only:)
  then have cs: "commentCount ` set cps = {3, 5, 2}"
    by auto
  have M: "M = 5"
  proof -
    from r(3) cs have "M \<in> {3, 5, 2}" by blast
    moreover from cs have "5 \<in> commentCount ` set cps" by simp
    then obtain x where "x \<in> set cps" "commentCount x = 5" by (metis imageE)
    then have "5 \<le> M" using r(2) by metis
    ultimately show ?thesis by auto
  qed
  have "image_mset ?f (mset result) =
        filter_mset (\<lambda>(i, c). c = 5) (image_mset ?f (mset cps))"
    unfolding r(4) M
    using image_mset_filter_mset_swap[of ?f "\<lambda>(i, c). c = 5" "mset cps"] by simp
  then have R: "image_mset ?f (mset result) = {#(2, 5), (3, 5), (5, 5)#}"
    unfolding E by simp
  have "mset (map post_id result) = image_mset fst (image_mset ?f (mset result))"
    by (simp add: image_mset.compositionality comp_def)
  then have m1: "mset (map post_id result) = mset [5, 3, 2]"
    unfolding R by simp
  have s1: "sorted_wrt (\<lambda>a b. b \<le> a) (map post_id result)"
    using r(5) by (simp add: sorted_wrt_map)
  have ids: "map post_id result = [5, 3, 2]"
    using desc_ids_unique[OF s1 m1] by simp
  have "\<forall>p\<in>#mset result. commentCount p = 5"
    unfolding r(4) M by simp
  then have "\<forall>p\<in>set result. commentCount p = 5"
    by simp
  then have "map commentCount result = replicate (length result) 5"
    by (rule map_const_replicate)
  moreover have "length (map post_id result) = length [5, 3, 2 :: int]"
    using ids by simp
  then have "length result = 3" by simp
  ultimately have cc: "map commentCount result = [5, 5, 5]"
    by (simp add: numeral_3_eq_3)
  show ?thesis
    by (intro exI[of _ result] conjI r(1) ids cc)
qed

theorem popular_of_five_posts_witness:
  "popularPostsCache empty_caches = None \<and>
   map (\<lambda>p. (post_id p, commentsLength five_posts_upstream p)) (fetchAllPosts five_posts_upstream) =
     [(1, Inr 3), (2, Inr 5), (3, Inr 5), (4, Inr 2), (5, Inr 5)] \<and>
   (\<exists>result.
      getPopularPosts five_posts_upstream empty_caches =
        (result, empty_caches\<lparr>popularPostsCache := Some result\<rparr>) \<and>
      map post_id result = [5, 3, 2] \<and>
      map commentCount result = [5, 5, 5])"
proof -
  have c: "popularPostsCache empty_caches = None" by (simp add: empty_caches_def)
  have h: "mset (map (\<lambda>p. (post_id p, commentsLength five_posts_upstream p))
                 (fetchAllPosts five_posts_upstream)) =
           mset [(1, Inr 3), (2, Inr 5), (3, Inr 5), (4, Inr 2), (5, Inr 5)]"
    by (simp only: five_posts_scores)
  from popular_of_five_posts[OF c h] c five_posts_scores show ?thesis by simp
qed

text \<open>
  C3, as the code has it. When the fetch of the users listing fails during a scheduled
  refresh, the aggregation is empty (\<open>fetchAllPosts\<close> returns \<open>[]\<close>) and the refresh
  overwrites its cache entries with the empty list: \<open>updateUsersCache\<close> sets
  \<open>topUsers\<close> to \<open>[]\<close>, \<open>updatePostsCache\<close> sets \<open>latestPosts\<close> and
  \<open>popularPosts\<close> to \<open>[]\<close>; every other entry stays as it was.
\<close>

theorem failed_listing_empties_caches:
  assumes "fetchUsers up = Inl e"
  shows "fetchAllPosts up = [] \<and>
         updateUsersCache up s = s\<lparr>userCache := Some []\<rparr> \<and>
         updatePostsCache up s = s\<lparr>latestPostsCache := Some [], popularPostsCache := Some []\<rparr>"
  using assms by (simp add: fetchAllPosts_def updateUsersCache_def updatePostsCache_def)

theorem failed_listing_empties_caches_witness:
  "fetchUsers failing_upstream = Inl RequestFailed \<and>
   fetchAllPosts failing_upstream = [] \<and>
   userCache (updateUsersCache failing_upstream warm_caches) = Some [] \<and>
   latestPostsCache (updatePostsCache failing_upstream warm_caches) = Some [] \<and>
   popularPostsCache (updatePostsCache failing_upstream warm_caches) = Some []"
proof -
  have h: "fetchUsers failing_upstream = Inl RequestFailed"
    by (simp add: fetchUsers_def failing_upstream_def)
  from failed_listing_empties_caches[OF h, of warm_caches] h show ?thesis by simp
qed

text \<open>
  C3 as stated (the cache entries are left at their prior values) fails: with caches
  filled by an earlier refresh and a users listing that cannot be fetched, each of the
  three entries differs after the refresh from what it held before.
\<close>

theorem failed_listing_counterexample:
  "fetchUsers failing_upstream = Inl RequestFailed \<and>
   userCache (updateUsersCache failing_upstream warm_caches) \<noteq> userCache warm_caches \<and>
   latestPostsCache (updatePostsCache failing_upstream warm_caches) \<noteq> latestPostsCache warm_caches \<and>
   popularPostsCache (updatePostsCache failing_upstream warm_caches) \<noteq> popularPostsCache warm_caches"
  by (simp add: fetchUsers_def fetchAllPosts_def updateUsersCache_def updatePostsCache_def
      failing_upstream_def warm_caches_def)

text \<open>
  C4. For 8 posts with the identifiers 1 to 8, in any order, the selection of
  \<open>getLatestPosts\<close> (all posts inserted into a \<open>MaxHeap\<close> on \<open>post.id\<close>, then
  \<open>Math.min(5, size)\<close> extractions) returns \<open>min 5 8 = 5\<close> of the posts, those with
  the identifiers 8, 7, 6, 5, 4 in this order; on a cache miss \<open>getLatestPosts\<close>
  returns and caches them.
\<close>

theorem latest_of_eight_posts:
  assumes "mset (map post_id allPosts) = mset [1, 2, 3, 4, 5, 6, 7, 8]"
  shows "\<exists>latestPosts.
           selectLatestPosts allPosts = Inr latestPosts \<and>
           map post_id latestPosts = [8, 7, 6, 5, 4] \<and>
           length latestPosts = min 5 (length allPosts) \<and>
           mset latestPosts \<subseteq># mset allPosts \<and>
           (latestPostsCache s = None \<and> fetchAllPosts up = allPosts \<longrightarrow>
              getLatestPosts up s = (latestPosts, s\<lparr>latestPostsCache := Some latestPosts\<rparr>))"
proof -
  from selectLatestPosts_spec[of allPosts] obtain latestPosts where
    l: "selectLatestPosts allPosts = Inr latestPosts"
      "map post_id latestPosts = take 5 (rev (sort (map post_id allPosts)))"
      "mset latestPosts \<subseteq># mset allPosts"
    by auto
  have srt: "sorted [1, 2, 3, 4, 5, 6, 7, 8 :: int]" by simp
  have "sort (map post_id allPosts) = [1, 2, 3, 4, 5, 6, 7, 8]"
    using properties_for_sort[OF assms[symmetric] srt] .
  then have ids: "map post_id latestPosts = [8, 7, 6, 5, 4]" using l(2) by simp
  have "size (mset (map post_id allPosts)) = size (mset [1, 2, 3, 4, 5, 6, 7, 8 :: int])"
    using assms by simp
  then have l8: "length allPosts = 8" by simp
  have "length (map post_id latestPosts) = length [8, 7, 6, 5, 4 :: int]"
    using ids by simp
  then have len: "length latestPosts = min 5 (length allPosts)" using l8 by simp
  have g: "latestPostsCache s = None \<and> fetchAllPosts up = allPosts \<longrightarrow>
      getLatestPosts up s = (latestPosts, s\<lparr>latestPostsCache := Some latestPosts\<rparr>)"
    using l(1) by (simp add: getLatestPosts_def)
  show ?thesis
    by (intro exI[of _ latestPosts] conjI l(1) ids len l(3) g)
qed

theorem latest_of_eight_posts_witness:
  "mset (map post_id (fetchAllPosts eight_posts_upstream)) = mset [1, 2, 3, 4, 5, 6, 7, 8] \<and>
   (\<exists>latestPosts.
      getLatestPosts eight_posts_upstream empty_caches =
        (latestPosts, empty_caches\<lparr>latestPostsCache := Some latestPosts\<rparr>) \<and>
      map post_id latestPosts = [8, 7, 6, 5, 4])"
proof -
  have h: "mset (map post_id (fetchAllPosts eight_posts_upstream)) = mset [1, 2, 3, 4, 5, 6, 7, 8]"
    by (simp add: eight_posts_ids)
  have c: "latestPostsCache empty_caches = None" by (simp add: empty_caches_def)
  from latest_of_eight_posts[OF h, of empty_caches eight_posts_upstream] h c
  show ?thesis by auto
qed

text \<open>
  C5, as the code has it. When the users listing is fetched and the fetch of the posts
  of one listed user \<open>u\<close> fails: the list of \<open>fetchAllPosts\<close> is made of the posts of
  the users whose fetch did not fail, each with its owner's name, in listing order;
  \<open>userWithPosts\<close> holds \<open>u\<close> with \<open>postCount\<close> 0; \<open>getTopUsers\<close> throws in no
  cache state; and on a cache miss, when at most 5 users are listed (the scenario of
  u1 to u4 has 4), \<open>getTopUsers\<close> returns \<open>u\<close> with \<open>postCount\<close> 0 among the top
  users.
\<close>

theorem failed_user_fetch_isolated:
  assumes "fetchUsers up = Inr (Some users)" "(u, n) \<in> set users" "posts_response up u = Inl e"
  shows "fetchAllPosts up =
           concat (map (\<lambda>(userId, name).
                          map (\<lambda>p. \<lparr>post_id = post_id p, post_fields = post_fields p,
                                      username = name\<rparr>)
                              (fetchUserPosts up userId))
                       (filter (\<lambda>(userId, name). \<not> isl (posts_response up userId)) users)) \<and>
         \<lparr>user_id = u, user_name = n, postCount = 0\<rparr> \<in> set (userWithPosts up users) \<and>
         (userCache s = None \<longrightarrow>
            (\<exists>topUsers. getTopUsers up s = Inr (topUsers, s\<lparr>userCache := Some topUsers\<rparr>) \<and>
               (length users \<le> 5 \<longrightarrow>
                  \<lparr>user_id = u, user_name = n, postCount = 0\<rparr> \<in> set topUsers))) \<and>
         (\<exists>r s'. getTopUsers up s = Inr (r, s'))"
proof -
  have a: "fetchAllPosts up =
           concat (map (\<lambda>(userId, name).
                          map (\<lambda>p. \<lparr>post_id = post_id p, post_fields = post_fields p,
                                      username = name\<rparr>)
                              (fetchUserPosts up userId))
                       (filter (\<lambda>(userId, name). \<not> isl (posts_response up userId)) users))"
    unfolding fetchAllPosts_concat[OF assms(1)]
    by (rule concat_map_filter_nonempty) (auto simp: fetchUserPosts_def isl_def)
  have "fetchUserPosts up u = []" using assms(3) by (simp add: fetchUserPosts_def)
  then have b: "\<lparr>user_id = u, user_name = n, postCount = 0\<rparr> \<in> set (userWithPosts up users)"
    using assms(2) by (force simp: userWithPosts_def)
  from selectTopUsers_spec[of "userWithPosts up users"] obtain topUsers where
    t: "selectTopUsers (userWithPosts up users) = Inr topUsers"
      "length topUsers = min 5 (length (userWithPosts up users))"
      "mset topUsers \<subseteq># mset (userWithPosts up users)"
    by auto
  have c: "\<lparr>user_id = u, user_name = n, postCount = 0\<rparr> \<in> set topUsers" if "length users \<le> 5"
  proof -
    have "size (mset topUsers) = size (mset (userWithPosts up users))"
      using t(2) that by (simp add: userWithPosts_def)
    with t(3) have "mset topUsers = mset (userWithPosts up users)"
      by (metis mset_subset_size nat_less_le subset_mset.le_imp_less_or_eq)
    then show ?thesis using b by (metis set_mset_mset)
  qed
  have g: "getTopUsers up s = Inr (topUsers, s\<lparr>userCache := Some topUsers\<rparr>)" if "userCache s = None"
    using that t(1) assms(1) by (simp add: getTopUsers_def)
  have d: "\<exists>r s'. getTopUsers up s = Inr (r, s')"
  proof (cases "userCache s")
    case None
    then show ?thesis using g by blast
  next
    case (Some cachedUsers)
    then show ?thesis by (simp add: getTopUsers_def)
  qed
  from a b c g d show ?thesis by blast
qed

theorem failed_user_fetch_isolated_witness:
  "fetchUsers four_users_upstream = Inr (Some four_users) \<and>
   (''u3'', ''Cid'') \<in> set four_users \<and>
   posts_response four_users_upstream ''u3'' = Inl RequestFailed \<and>
   map (\<lambda>p. (post_id p, username p)) (fetchAllPosts four_users_upstream) =
     [(11, ''Ann''), (12, ''Ann''), (21, ''Bob''), (41, ''Dee''), (42, ''Dee''), (43, ''Dee'')] \<and>
   (\<exists>topUsers.
      getTopUsers four_users_upstream empty_caches =
        Inr (topUsers, empty_caches\<lparr>userCache := Some topUsers\<rparr>) \<and>
      \<lparr>user_id = ''u3'', user_name = ''Cid'', postCount = 0\<rparr> \<in> set topUsers)"
proof -
  have h1: "fetchUsers four_users_upstream = Inr (Some four_users)"
    by (simp add: fetchUsers_def four_users_upstream_def)
  have h2: "(''u3'', ''Cid'') \<in> set four_users"
    by (simp add: four_users_def)
  have h3: "posts_response four_users_upstream ''u3'' = Inl RequestFailed"
    by (simp add: four_users_upstream_def)
  have h4: "userCache empty_caches = None" "length four_users \<le> 5"
    by (simp_all add: empty_caches_def four_users_def)
  have p: "map (\<lambda>p. (post_id p, username p)) (fetchAllPosts four_users_upstream) =
     [(11, ''Ann''), (12, ''Ann''), (21, ''Bob''), (41, ''Dee''), (42, ''Dee''), (43, ''Dee'')]"
    using failed_user_fetch_isolated[OF h1 h2 h3, of empty_caches]
    by (simp add: four_users_def four_users_upstream_def fetchUserPosts_def example_post_def)
  from failed_user_fetch_isolated[OF h1 h2 h3, of empty_caches] h1 h2 h3 h4 p
  show ?thesis by blast
qed

text \<open>
  C5 as stated (the top users still include the failed user, whatever the number of
  users) fails with six users: the posts of user 3 cannot be fetched, users 3 and 5
  both count 0 posts, and the selection of the 5 largest keeps user 5 and drops user 3.
\<close>

theorem six_users_drop_failed_user:
  "fetchUsers six_users_upstream = Inr (Some six_users) \<and>
   (''3'', ''Cid'') \<in> set six_users \<and>
   posts_response six_users_upstream ''3'' = Inl RequestFailed \<and>
   userCache empty_caches = None \<and>
   getTopUsers six_users_upstream empty_caches =
     Inr ([\<lparr>user_id = ''4'', user_name = ''Dee'', postCount = 4\<rparr>,
           \<lparr>user_id = ''1'', user_name = ''Ann'', postCount = 3\<rparr>,
           \<lparr>user_id = ''6'', user_name = ''Fay'', postCount = 2\<rparr>,
           \<lparr>user_id = ''2'', user_name = ''Bob'', postCount = 1\<rparr>,
           \<lparr>user_id = ''5'', user_name = ''Eve'', postCount = 0\<rparr>],
          empty_caches\<lparr>userCache :=
            Some [\<lparr>user_id = ''4'', user_name = ''Dee'', postCount = 4\<rparr>,
                  \<lparr>user_id = ''1'', user_name = ''Ann'', postCount = 3\<rparr>,
                  \<lparr>user_id = ''6'', user_name = ''Fay'', postCount = 2\<rparr>,
                  \<lparr>user_id = ''2'', user_name = ''Bob'', postCount = 1\<rparr>,
                  \<lparr>user_id = ''5'', user_name = ''Eve'', postCount = 0\<rparr>]\<rparr>) \<and>
   \<lparr>user_id = ''3'', user_name = ''Cid'', postCount = 0\<rparr> \<notin>
     set [\<lparr>user_id = ''4'', user_name = ''Dee'', postCount = 4\<rparr>,
          \<lparr>user_id = ''1'', user_name = ''Ann'', postCount = 3\<rparr>,
          \<lparr>user_id = ''6'', user_name = ''Fay'', postCount = 2\<rparr>,
          \<lparr>user_id = ''2'', user_name = ''Bob'', postCount = 1\<rparr>,
          \<lparr>user_id = ''5'', user_name = ''Eve'', postCount = 0\<rparr>]"
  by code_simp

text \<open>
  C6. In every cache state the service can reach and for every upstream answer, the
  list that \<open>getTopUsers\<close> returns (computed or cached) and the list that
  \<open>GET /users\<close> serves have at most 5 entries and are in descending order of
  \<open>postCount\<close>.
\<close>

theorem top_users_at_most_5_descending:
  assumes "reachable s"
  shows "(\<forall>topUsers s'. getTopUsers up s = Inr (topUsers, s') \<longrightarrow>
            length topUsers \<le> 5 \<and>
            sorted_wrt (\<lambda>a b. postCount a \<ge> postCount b) topUsers \<and> reachable s') \<and>
         (\<forall>served. body (fst (get_users up s)) = Users served \<longrightarrow>
            length served \<le> 5 \<and> sorted_wrt (\<lambda>a b. postCount a \<ge> postCount b) served)"
proof -
  have ok: "users_cached_ok s" using assms by (rule reachable_users_ok)
  have "length topUsers \<le> 5 \<and>
        sorted_wrt (\<lambda>a b. postCount a \<ge> postCount b) topUsers \<and> reachable s'"
    if "getTopUsers up s = Inr (topUsers, s')" for topUsers s'
    using getTopUsers_ok[OF ok that] reachable.call_getTopUsers[OF assms that]
    by (simp add: top5_sorted_def desc_postCount_def)
  moreover
  have "length served \<le> 5 \<and> sorted_wrt (\<lambda>a b. postCount a \<ge> postCount b) served"
    if "body (fst (get_users up s)) = Users served" for served
    using get_users_ok[OF ok, of up] that by (simp add: top5_sorted_def desc_postCount_def)
  ultimately show ?thesis by blast
qed

theorem top_users_at_most_5_descending_witness:
  "reachable empty_caches \<and>
   (\<exists>topUsers s'. getTopUsers six_users_upstream empty_caches = Inr (topUsers, s') \<and>
      length topUsers \<le> 5 \<and> sorted_wrt (\<lambda>a b. postCount a \<ge> postCount b) topUsers) \<and>
   (\<exists>served. body (fst (get_users six_users_upstream empty_caches)) = Users served \<and>
      length served \<le> 5 \<and> sorted_wrt (\<lambda>a b. postCount a \<ge> postCount b) served)"
proof -
  from selectTopUsers_spec[of "userWithPosts six_users_upstream six_users"]
  obtain topUsers where
    t: "selectTopUsers (userWithPosts six_users_upstream six_users) = Inr topUsers"
    by auto
  have g: "getTopUsers six_users_upstream empty_caches =
           Inr (topUsers, empty_caches\<lparr>userCache := Some topUsers\<rparr>)"
    using t by (simp add: getTopUsers_def empty_caches_def fetchUsers_def six_users_upstream_def)
  have u: "body (fst (get_users six_users_upstream empty_caches)) = Users topUsers"
    using g by (simp add: get_users_def empty_caches_def)
  from top_users_at_most_5_descending[OF reachable.start, of six_users_upstream]
  show ?thesis using g u reachable.start by blast
qed

text \<open>
  C7. Running \<open>updatePostsCache\<close> a second time on the same upstream answers leaves the
  caches exactly as the first run left them: the cached latest posts and popular posts
  of the two runs are identical, whatever the caches held before.
\<close>

theorem updatePostsCache_twice:
  "updatePostsCache up (updatePostsCache up s) = updatePostsCache up s \<and>
   latestPostsCache (updatePostsCache up (updatePostsCache up s)) =
     latestPostsCache (updatePostsCache up s) \<and>
   popularPostsCache (updatePostsCache up (updatePostsCache up s)) =
     popularPostsCache (updatePostsCache up s)"
proof -
  have "updatePostsCache up (updatePostsCache up s) = updatePostsCache up s"
    by (simp add: updatePostsCache_def Let_def split: sum.splits)
  then show ?thesis by simp
qed

text \<open>
  C8, as the code has it. \<open>GET /posts\<close> with a \<open>type\<close> that is not empty and is
  neither \<open>latest\<close> nor \<open>popular\<close> answers 400 with the error body, whatever the
  caches and the upstream hold (nothing is read), and leaves the caches unchanged. An
  empty \<open>type\<close> is treated like a missing one, and both like \<open>latest\<close>: the answer
  and the caches left are the same, the status is 200 and the body a list of latest
  posts.
\<close>

theorem invalid_type_is_400:
  \<open>(t \<noteq> '''' \<and> t \<noteq> ''latest'' \<and> t \<noteq> ''popular'' \<longrightarrow>
      get_posts (Some t) up s =
        (\<lparr>status = 400,
          body = ErrorBody ''Invalid type parameter. Use "latest" or "popular".''\<rparr>, s)) \<and>
   get_posts (Some '''') up s = get_posts None up s \<and>
   get_posts None up s = get_posts (Some ''latest'') up s \<and>
   status (fst (get_posts (Some '''') up s)) = 200 \<and>
   (\<exists>posts. body (fst (get_posts (Some '''') up s)) = LatestPosts posts)\<close>
  by (auto simp: get_posts_def split: option.splits prod.splits)

theorem invalid_type_is_400_witness:
  \<open>get_posts (Some ''oldest'') failing_upstream warm_caches =
     (\<lparr>status = 400,
       body = ErrorBody ''Invalid type parameter. Use "latest" or "popular".''\<rparr>, warm_caches) \<and>
   get_posts (Some '''') failing_upstream warm_caches = get_posts None failing_upstream warm_caches \<and>
   status (fst (get_posts (Some '''') failing_upstream warm_caches)) = 200\<close>
proof -
  have ne: "''oldest'' \<noteq> '''' \<and> ''oldest'' \<noteq> ''latest'' \<and> ''oldest'' \<noteq> ''popular''"
    by simp
  from invalid_type_is_400[of "''oldest''" failing_upstream warm_caches] ne
  show ?thesis by blast
qed

text \<open>
  C8 as stated (any \<open>type\<close> that is present and neither \<open>latest\<close> nor \<open>popular\<close>)
  fails for the empty value, \<open>GET /posts?type=\<close>: \<open>req.query.type || 'latest'\<close> takes
  it for \<open>latest\<close>, the answer is 200 and cache entries are written.
\<close>

theorem empty_type_counterexample:
  "'''' \<noteq> ''latest'' \<and> '''' \<noteq> ''popular'' \<and>
   status (fst (get_posts (Some '''') failing_upstream empty_caches)) = 200 \<and>
   body (fst (get_posts (Some '''') failing_upstream empty_caches)) = LatestPosts [] \<and>
   snd (get_posts (Some '''') failing_upstream empty_caches) \<noteq> empty_caches"
  by (simp add: get_posts_def getLatestPosts_def fetchAllPosts_def selectLatestPosts_def
      fetchUsers_def failing_upstream_def empty_caches_def)

text \<open>
  C9. When the upstream listing holds no users, \<open>fetchAllPosts\<close> is \<open>[]\<close>;
  \<open>getTopUsers\<close> throws in no cache state; and each aggregation that runs (its cache
  entry absent) returns the empty list: \<open>getTopUsers\<close> and \<open>getLatestPosts\<close> cache
  and return \<open>[]\<close>, \<open>getPopularPosts\<close> returns \<open>[]\<close> from its empty-heap guard
  and caches nothing. (\<open>getLatestPosts\<close> and \<open>getPopularPosts\<close> return a list in
  every case.)
\<close>

theorem zero_users_empty_views:
  assumes "fetchUsers up = Inr (Some [])"
  shows "fetchAllPosts up = [] \<and>
         (\<exists>r s'. getTopUsers up s = Inr (r, s')) \<and>
         (userCache s = None \<longrightarrow> getTopUsers up s = Inr ([], s\<lparr>userCache := Some []\<rparr>)) \<and>
         (latestPostsCache s = None \<longrightarrow>
            getLatestPosts up s = ([], s\<lparr>latestPostsCache := Some []\<rparr>)) \<and>
         (popularPostsCache s = None \<longrightarrow> getPopularPosts up s = ([], s))"
  using assms
  by (auto simp: fetchAllPosts_def getTopUsers_def getLatestPosts_def getPopularPosts_def
      selectTopUsers_def selectLatestPosts_def userWithPosts_def unshiftAll_Nil
      split: option.splits)


theorem zero_users_empty_views_witness:
  "fetchUsers no_users_upstream = Inr (Some []) \<and>
   fetchAllPosts no_users_upstream = [] \<and>
   getTopUsers no_users_upstream empty_caches = Inr ([], empty_caches\<lparr>userCache := Some []\<rparr>) \<and>
   getLatestPosts no_users_upstream empty_caches =
     ([], empty_caches\<lparr>latestPostsCache := Some []\<rparr>) \<and>
   getPopularPosts no_users_upstream empty_caches = ([], empty_caches)"
proof -
  have h: "fetchUsers no_users_upstream = Inr (Some [])"
    by (simp add: fetchUsers_def no_users_upstream_def)
  from zero_users_empty_views[OF h, of empty_caches] h show ?thesis
    by (simp add: empty_caches_def)
qed

text \<open>
  C10. Extraction from an empty heap is total and never throws:
  \<open>MinHeap.extractMin\<close>, \<open>MaxHeap.extractMax\<close> and \<open>MaxHeap.peek\<close> return \<open>null\<close>
  on the empty heap; on every heap that is not empty (written \<open>u # us\<close>, in heap order
  or not) they return its first element, no read leaves the array (no \<open>TypeError\<close>),
  and the extractions leave a heap one element shorter.
\<close>

theorem extraction_total:
  "MinHeap_extractMin [] = Inr (None, []) \<and>
   MaxHeap_extractMax keyFunction ([] :: 'a list) = Inr (None, []) \<and>
   MaxHeap_peek ([] :: 'a list) = None \<and>
   (\<exists>heap'. MinHeap_extractMin (u # us) = Inr (Some u, heap') \<and> length heap' = length us) \<and>
   (\<exists>heap'. MaxHeap_extractMax keyFunction (x # xs) = Inr (Some x, heap') \<and>
            length heap' = length xs) \<and>
   MaxHeap_peek (x # xs) = Some x"
proof -
  have "\<exists>heap'. MinHeap_extractMin (u # us) = Inr (Some u, heap') \<and> length heap' = length us"
    using MaxHeap_extractMax_total[of "u # us" neg_postCount]
    by (auto simp: MinHeap_extractMin_eq)
  moreover
  have "\<exists>heap'. MaxHeap_extractMax keyFunction (x # xs) = Inr (Some x, heap') \<and>
          length heap' = length xs"
    using MaxHeap_extractMax_total[of "x # xs" keyFunction] by auto
  ultimately show ?thesis
    by (simp add: MinHeap_extractMin_eq MaxHeap_extractMax_Nil MaxHeap_peek_def)
qed

end
